theory Spec2Isabelle
  imports Main
begin

section \<open>Data model of \<^verbatim>\<open>src/6/async_http_mod.py\<close>\<close>

text \<open>
  Exceptions, classified by the first \<^verbatim>\<open>except\<close> clause of
  \<^verbatim>\<open>_fetch_single_url\<close> that matches them; each carries its \<^verbatim>\<open>str(e)\<close>.
  \<open>BaseException\<close> stands for the classes outside \<^verbatim>\<open>Exception\<close>
  (task cancellation, interpreter exit), which no clause of the source catches.
\<close>

datatype exn =
    TimeoutError string
  | ClientError string
  | JSONDecodeError string
  | Exception string
  | BaseException string

fun str_exn :: "exn \<Rightarrow> string" where
  "str_exn (TimeoutError m) = m"
| "str_exn (ClientError m) = m"
| "str_exn (JSONDecodeError m) = m"
| "str_exn (Exception m) = m"
| "str_exn (BaseException m) = m"

text \<open>
  The dataclass \<^verbatim>\<open>FetchResult\<close>. \<^verbatim>\<open>Optional\<close> fields are options, Python's
  \<^verbatim>\<open>None\<close> being \<open>None\<close>; the parsed content is of any type \<open>'c\<close>. The field
  \<^verbatim>\<open>response_time\<close> is a wall-clock float and is left out.
\<close>

record 'c FetchResult =
  url :: string
  success :: bool
  content :: "'c option"
  error :: "string option"

text \<open>The configuration that \<^verbatim>\<open>URLFetcher.__init__\<close> stores.\<close>

record URLFetcher =
  max_concurrent :: int
  max_retries :: int

text \<open>
  What one \<^verbatim>\<open>session.get(url)\<close> gives back: it raises, or yields a response with a
  status and a body whose reading (\<^verbatim>\<open>response.text()\<close>) may raise in turn.
\<close>

record response =
  status :: int
  text_body :: "exn + string"

text \<open>
  The transport as one operation sees it: what \<^verbatim>\<open>session.get(url)\<close> gives back on the
  attempt of a given index.
\<close>

type_synonym transport = "string \<Rightarrow> int \<Rightarrow> exn + response"

text \<open>
  What a Fetch Operation does besides returning, in order: the semaphore's acquire and
  release, the start and the end of a Transport exchange, and the backoff sleep.
\<close>

datatype event =
    Acquire
  | GetBegin string int
  | GetEnd
  | Release
  | Sleep int

section \<open>Formatting\<close>

text \<open>Python's \<^verbatim>\<open>str\<close> of an integer, as the f-string \<^verbatim>\<open>f"HTTP {response.status}"\<close> uses it.\<close>

fun str_nat :: "nat \<Rightarrow> string" where
  "str_nat n = (if n < 10 then [''0123456789'' ! n]
                else str_nat (n div 10) @ [''0123456789'' ! (n mod 10)])"

definition str_int :: "int \<Rightarrow> string" where
  "str_int i = (if i < 0 then CHR ''-'' # str_nat (nat (- i)) else str_nat (nat i))"

section \<open>The Fetch Operation: \<^verbatim>\<open>URLFetcher._fetch_single_url\<close>\<close>

text \<open>How one pass through the loop body ends: by a \<^verbatim>\<open>return\<close>, or by falling through.\<close>

datatype 'c step = Return "'c FetchResult" | Continue

definition success_result :: "string \<Rightarrow> 'c option \<Rightarrow> 'c FetchResult" where
  "success_result u v = \<lparr>url = u, success = True, content = v, error = None\<rparr>"

definition failure_result :: "string \<Rightarrow> string \<Rightarrow> 'c FetchResult" where
  "failure_result u msg = \<lparr>url = u, success = False, content = None, error = Some msg\<rparr>"

text \<open>
  The block that follows every assignment of \<^verbatim>\<open>error_msg\<close>:
  \<^verbatim>\<open>if attempt == self.max_retries: return FetchResult(url=url, success=False, error=error_msg, ...)\<close>.
\<close>

definition give_up :: "URLFetcher \<Rightarrow> string \<Rightarrow> int \<Rightarrow> string \<Rightarrow> 'c step" where
  "give_up self u attempt error_msg =
     (if attempt = max_retries self then Return (failure_result u error_msg) else Continue)"

text \<open>
  The body of the \<^verbatim>\<open>try\<close>, under the semaphore: \<open>Inl e\<close> is an exception leaving it.
  The inner \<^verbatim>\<open>try\<close> covers \<^verbatim>\<open>json.loads\<close> only, and catches \<^verbatim>\<open>JSONDecodeError\<close> only.
\<close>

definition try_body ::
  "URLFetcher \<Rightarrow> transport \<Rightarrow> (string \<Rightarrow> exn + 'c option) \<Rightarrow> string \<Rightarrow> int \<Rightarrow> exn + 'c step" where
  "try_body self session_get json_loads u attempt =
     (case session_get u attempt of
        Inl e \<Rightarrow> Inl e
      | Inr resp \<Rightarrow>
          if status resp = 200 then
            (case text_body resp of
               Inl e \<Rightarrow> Inl e
             | Inr txt \<Rightarrow>
                 (case json_loads txt of
                    Inr json_content \<Rightarrow> Inr (Return (success_result u json_content))
                  | Inl (JSONDecodeError m) \<Rightarrow> Inr (give_up self u attempt (''Invalid JSON: '' @ m))
                  | Inl e \<Rightarrow> Inl e))
          else Inr (give_up self u attempt (''HTTP '' @ str_int (status resp))))"

text \<open>
  The three \<^verbatim>\<open>except\<close> clauses, in the source's order: \<^verbatim>\<open>asyncio.TimeoutError\<close>,
  \<^verbatim>\<open>aiohttp.ClientError\<close>, then \<^verbatim>\<open>Exception\<close>, which takes every other class that derives
  from it. What none catches propagates.
\<close>

fun handlers :: "URLFetcher \<Rightarrow> string \<Rightarrow> int \<Rightarrow> exn \<Rightarrow> exn + 'c step" where
  "handlers self u attempt (TimeoutError m) = Inr (give_up self u attempt ''Timeout'')"
| "handlers self u attempt (ClientError m) = Inr (give_up self u attempt (''Client error: '' @ m))"
| "handlers self u attempt (JSONDecodeError m) =
     Inr (give_up self u attempt (''Unexpected error: '' @ str_exn (JSONDecodeError m)))"
| "handlers self u attempt (Exception m) =
     Inr (give_up self u attempt (''Unexpected error: '' @ str_exn (Exception m)))"
| "handlers self u attempt (BaseException m) = Inl (BaseException m)"

definition attempt_step ::
  "URLFetcher \<Rightarrow> transport \<Rightarrow> (string \<Rightarrow> exn + 'c option) \<Rightarrow> string \<Rightarrow> int \<Rightarrow> exn + 'c step" where
  "attempt_step self session_get json_loads u attempt =
     (case try_body self session_get json_loads u attempt of
        Inl e \<Rightarrow> handlers self u attempt e
      | Inr s \<Rightarrow> Inr s)"

text \<open>The events of one attempt: the slot is held exactly around the exchange.\<close>

definition attempt_events :: "string \<Rightarrow> int \<Rightarrow> event list" where
  "attempt_events u attempt = [Acquire, GetBegin u attempt, GetEnd, Release]"

text \<open>
  Which statement ended the function; \<open>Suspended\<close>: none did, the task waits for ever in
  \<^verbatim>\<open>async with self.semaphore\<close>.
\<close>

datatype 'c exit =
    ReturnInLoop "'c FetchResult"
  | ReturnAfterLoop "'c FetchResult"
  | Propagate exn
  | Suspended

text \<open>
  \<^verbatim>\<open>for attempt in range(self.max_retries + 1)\<close>, from \<open>attempt\<close> on, then the
  statement after the loop. The result is the events so far and the way out.

  The semaphore is built as \<^verbatim>\<open>asyncio.Semaphore(max_concurrent)\<close>. An operation taken by
  itself is granted the slot it asks for when the semaphore has one at all, and waits
  for ever when it has none; that the tasks of a run give their slots back, so that a
  waiting task is served, is the matter of the section on the interleaving.
\<close>

function fetch_loop ::
  "URLFetcher \<Rightarrow> transport \<Rightarrow> (string \<Rightarrow> exn + 'c option) \<Rightarrow> string \<Rightarrow> int \<Rightarrow> event list \<times> 'c exit" where
  "fetch_loop self session_get json_loads u attempt =
     (if attempt < max_retries self + 1 then
        if max_concurrent self < 1 then ([], Suspended)
        else
          (case attempt_step self session_get json_loads u attempt of
             Inl e \<Rightarrow> (attempt_events u attempt, Propagate e)
           | Inr (Return r) \<Rightarrow> (attempt_events u attempt, ReturnInLoop r)
           | Inr Continue \<Rightarrow>
               (let pause = (if attempt < max_retries self then [Sleep (1 * (attempt + 1))] else []);
                    (evs, x) = fetch_loop self session_get json_loads u (attempt + 1)
                in (attempt_events u attempt @ pause @ evs, x)))
      else ([], ReturnAfterLoop (failure_result u ''Max retries exceeded'')))"
  by pat_completeness auto
termination
  by (relation "measure (\<lambda>(self, g, l, u, attempt). nat (max_retries self + 1 - attempt))") auto

declare fetch_loop.simps [simp del]

text \<open>
  \<^verbatim>\<open>_fetch_single_url\<close>: the events, and what the caller gets: a result, an exception,
  or nothing ever (\<open>None\<close>).
\<close>

definition fetch_single_url ::
  "URLFetcher \<Rightarrow> transport \<Rightarrow> (string \<Rightarrow> exn + 'c option) \<Rightarrow> string
   \<Rightarrow> event list \<times> (exn + 'c FetchResult) option" where
  "fetch_single_url self session_get json_loads u =
     (case fetch_loop self session_get json_loads u 0 of
        (evs, ReturnInLoop r) \<Rightarrow> (evs, Some (Inr r))
      | (evs, ReturnAfterLoop r) \<Rightarrow> (evs, Some (Inr r))
      | (evs, Propagate e) \<Rightarrow> (evs, Some (Inl e))
      | (evs, Suspended) \<Rightarrow> (evs, None))"

section \<open>Reading a trace\<close>

fun is_exchange :: "event \<Rightarrow> bool" where
  "is_exchange (GetBegin u k) = True"
| "is_exchange e = False"

text \<open>The number of Transport exchanges (calls of \<^verbatim>\<open>session.get\<close>) in a trace.\<close>

definition exchanges :: "event list \<Rightarrow> nat" where
  "exchanges evs = length (filter is_exchange evs)"

text \<open>The backoff delays slept, in order.\<close>

fun sleeps :: "event list \<Rightarrow> int list" where
  "sleeps [] = []"
| "sleeps (Sleep d # evs) = d # sleeps evs"
| "sleeps (e # evs) = sleeps evs"

text \<open>
  The trace of \<open>n\<close> attempts from attempt \<open>a\<close> on, each followed by its backoff sleep:
  the shape that the retry policy of the specification describes.
\<close>

fun retry_events :: "string \<Rightarrow> int \<Rightarrow> nat \<Rightarrow> event list" where
  "retry_events u a 0 = []"
| "retry_events u a (Suc n) =
     attempt_events u a @ [Sleep (1 * (a + 1))] @ retry_events u (a + 1) n"

section \<open>Sample configurations and transports\<close>

definition default_fetcher :: URLFetcher where
  "default_fetcher = \<lparr>max_concurrent = 5, max_retries = 2\<rparr>"

text \<open>
  A parsed JSON value other than \<^verbatim>\<open>null\<close>, which is Python's \<^verbatim>\<open>None\<close>. A Python string
  is the list of its code points.
\<close>

datatype json =
    JBool bool
  | JInt int
  | JStr "nat list"
  | JList "json list"
  | JDict "(nat list \<times> json) list"

text \<open>
  The JSON text of eight characters that is a string with the one escape \<^verbatim>\<open>\ud800\<close>: a
  quotation mark, a backslash, \<^verbatim>\<open>ud800\<close>, a quotation mark. \<^verbatim>\<open>json.loads\<close> accepts it and
  returns the string of the lone surrogate U+D800.
\<close>

definition surrogate_body :: string where
  "surrogate_body = [CHR 0x22, CHR 0x5C] @ ''ud800'' @ [CHR 0x22]"

text \<open>
  \<^verbatim>\<open>json.loads\<close> on the texts that the examples below use: \<^verbatim>\<open>null\<close>, \<^verbatim>\<open>{}\<close>,
  \<^verbatim>\<open>true\<close>, the string with a lone surrogate, and a text that is not JSON.
\<close>

definition loads_sample :: "string \<Rightarrow> exn + json option" where
  "loads_sample txt =
     (if txt = ''null'' then Inr None
      else if txt = ''{}'' then Inr (Some (JDict []))
      else if txt = ''true'' then Inr (Some (JBool True))
      else if txt = surrogate_body then Inr (Some (JStr [0xD800]))
      else Inl (JSONDecodeError ''Expecting value: line 1 column 1 (char 0)''))"

definition get_ok :: transport where
  "get_ok u k = Inr \<lparr>status = 200, text_body = Inr ''{}''\<rparr>"

definition get_null :: transport where
  "get_null u k = Inr \<lparr>status = 200, text_body = Inr ''null''\<rparr>"

definition get_500 :: transport where
  "get_500 u k = Inr \<lparr>status = 500, text_body = Inr []\<rparr>"

definition get_timeout :: transport where
  "get_timeout u k = Inl (TimeoutError [])"

definition get_malformed :: transport where
  "get_malformed u k = Inr \<lparr>status = 200, text_body = Inr ''oops''\<rparr>"


text \<open>Malformed JSON on the first two attempts, valid JSON on the third.\<close>

definition get_flaky :: transport where
  "get_flaky u k = Inr \<lparr>status = 200, text_body = Inr (if k < 2 then ''oops'' else ''{}'')\<rparr>"

section \<open>Outcomes of one exchange\<close>

text \<open>
  The kinds of outcome of one Transport exchange with its parse step, read off the
  answers of the transport and of the parser: a parsed value (\<open>None\<close> for the JSON text
  \<^verbatim>\<open>null\<close>), a status other than 200, a \<^verbatim>\<open>JSONDecodeError\<close> of \<^verbatim>\<open>json.loads\<close>, or
  an exception raised by \<^verbatim>\<open>session.get\<close>, by \<^verbatim>\<open>response.text()\<close> or (another class)
  by \<^verbatim>\<open>json.loads\<close>.
\<close>

datatype 'c outcome = Parsed "'c option" | HttpStatus int | DecodeError string | Raised exn

definition exchange_outcome ::
  "transport \<Rightarrow> (string \<Rightarrow> exn + 'c option) \<Rightarrow> string \<Rightarrow> int \<Rightarrow> 'c outcome" where
  "exchange_outcome session_get json_loads u attempt =
     (case session_get u attempt of
        Inl e \<Rightarrow> Raised e
      | Inr resp \<Rightarrow>
          if status resp = 200 then
            (case text_body resp of
               Inl e \<Rightarrow> Raised e
             | Inr txt \<Rightarrow>
                 (case json_loads txt of
                    Inr v \<Rightarrow> Parsed v
                  | Inl (JSONDecodeError m) \<Rightarrow> DecodeError m
                  | Inl e \<Rightarrow> Raised e))
          else HttpStatus (status resp))"

text \<open>An outcome that is an error of a class deriving from \<^verbatim>\<open>Exception\<close>, or a bad status.\<close>

fun is_failure :: "'c outcome \<Rightarrow> bool" where
  "is_failure (Parsed v) = False"
| "is_failure (Raised (BaseException m)) = False"
| "is_failure x = True"




text \<open>
  The attempt \<open>k\<close> is the last one that the operation makes: its trace is the attempts
  from 0 to \<open>k\<close>, each but the last followed by its sleep, and every attempt before \<open>k\<close>
  ends in a failure.
\<close>

definition last_attempt ::
  "URLFetcher \<Rightarrow> transport \<Rightarrow> (string \<Rightarrow> exn + 'c option) \<Rightarrow> string \<Rightarrow> int \<Rightarrow> bool" where
  "last_attempt self session_get json_loads u k =
     (0 \<le> k \<and> k \<le> max_retries self \<and>
      fst (fetch_single_url self session_get json_loads u) =
        retry_events u 0 (nat k) @ attempt_events u k \<and>
      (\<forall>j \<in> {0..<k}. is_failure (exchange_outcome session_get json_loads u j)))"

section \<open>The Orchestrator: \<^verbatim>\<open>URLFetcher.fetch_urls\<close>\<close>

text \<open>
  The dict \<^verbatim>\<open>stats\<close>, whose keys are the literals of its creation. The key
  \<^verbatim>\<open>total_time\<close> holds a wall-clock float and is left out.
\<close>

record stats =
  total_count :: int
  successful :: int
  failed :: int

text \<open>A line of the output file: the dict \<^verbatim>\<open>{"url": result.url, "content": result.content}\<close>.\<close>

type_synonym 'c sink = "(string \<times> 'c option) list"

text \<open>
  What the statements
  \<^verbatim>\<open>f.write(json.dumps(output_data, ensure_ascii=False) + "\n"); f.flush()\<close>
  do with the record of a URL and a content: \<open>None\<close> when the line is written, \<open>Some e\<close>
  when they raise \<open>e\<close> and write nothing. The file is opened with
  \<^verbatim>\<open>encoding="utf-8"\<close>, so a content that holds a lone surrogate, which \<^verbatim>\<open>json.loads\<close>
  accepts, raises \<^verbatim>\<open>UnicodeEncodeError\<close> here. The output file itself is taken to open
  and to take every line that can be encoded.
\<close>

type_synonym 'c writer = "string \<Rightarrow> 'c option \<Rightarrow> exn option"

text \<open>
  The loop \<^verbatim>\<open>for future in asyncio.as_completed(tasks)\<close> over the tasks in their order
  of completion, on the statistics and the lines written so far. Awaiting a task that
  raised raises in turn, which ends the loop; so does a write that raises, before the
  record is counted.
\<close>

fun process_completed ::
  "'c writer \<Rightarrow> (exn + 'c FetchResult) list \<Rightarrow> stats \<Rightarrow> 'c sink
   \<Rightarrow> stats \<times> 'c sink \<times> exn option" where
  "process_completed write [] st f = (st, f, None)"
| "process_completed write (Inl e # rest) st f = (st, f, Some e)"
| "process_completed write (Inr result # rest) st f =
     (if success result \<and> content result \<noteq> None then
        (case write (url result) (content result) of
           Some e \<Rightarrow> (st, f, Some e)
         | None \<Rightarrow>
             process_completed write rest (st\<lparr>successful := successful st + 1\<rparr>)
               (f @ [(url result, content result)]))
      else process_completed write rest (st\<lparr>failed := failed st + 1\<rparr>) f)"

text \<open>
  The tasks of a run: one Fetch Operation per position of the input list, each with the
  transport answers of its own exchanges (\<open>net i\<close> for the task at position \<open>i\<close>).
\<close>

definition tasks_of ::
  "URLFetcher \<Rightarrow> (nat \<Rightarrow> transport) \<Rightarrow> (string \<Rightarrow> exn + 'c option) \<Rightarrow> string list
   \<Rightarrow> (event list \<times> (exn + 'c FetchResult) option) list" where
  "tasks_of self net json_loads urls =
     map (\<lambda>(i, u). fetch_single_url self (net i) json_loads u) (enumerate 0 urls)"

text \<open>An order of completion of \<open>n\<close> tasks: every position of the input, once.\<close>

definition completion_order :: "nat \<Rightarrow> nat list \<Rightarrow> bool" where
  "completion_order n order = (distinct order \<and> set order = {0..<n})"

definition initial_stats :: "string list \<Rightarrow> stats" where
  "initial_stats urls = \<lparr>total_count = int (length urls), successful = 0, failed = 0\<rparr>"

text \<open>The tasks that end, out of a list of tasks in some order.\<close>

fun finished :: "'a option list \<Rightarrow> 'a list" where
  "finished [] = []"
| "finished (None # xs) = finished xs"
| "finished (Some x # xs) = x # finished xs"

text \<open>
  What the tasks come to, in the order \<open>order\<close>; \<^verbatim>\<open>as_completed\<close> yields those of them
  that end, in this order.
\<close>

definition outcomes ::
  "URLFetcher \<Rightarrow> (nat \<Rightarrow> transport) \<Rightarrow> (string \<Rightarrow> exn + 'c option) \<Rightarrow> nat list \<Rightarrow> string list
   \<Rightarrow> (exn + 'c FetchResult) option list" where
  "outcomes self net json_loads order urls =
     map (\<lambda>i. snd (tasks_of self net json_loads urls ! i)) order"

definition completed ::
  "URLFetcher \<Rightarrow> (nat \<Rightarrow> transport) \<Rightarrow> (string \<Rightarrow> exn + 'c option) \<Rightarrow> nat list \<Rightarrow> string list
   \<Rightarrow> (exn + 'c FetchResult) list" where
  "completed self net json_loads order urls = finished (outcomes self net json_loads order urls)"

text \<open>
  \<^verbatim>\<open>fetch_urls\<close>: the lines of the output file, which is opened with mode \<^verbatim>\<open>"w"\<close> and
  so holds what this run writes and nothing else, and what the caller gets: the
  statistics, an exception, or nothing ever (\<open>None\<close>) when the loop has handled every
  task that ends and goes on waiting for one that does not. The order of completion and
  the outcome of the writes are parameters.
\<close>

definition fetch_urls ::
  "URLFetcher \<Rightarrow> 'c writer \<Rightarrow> (nat \<Rightarrow> transport) \<Rightarrow> (string \<Rightarrow> exn + 'c option) \<Rightarrow> nat list
   \<Rightarrow> string list \<Rightarrow> 'c sink \<times> (exn + stats) option" where
  "fetch_urls self write net json_loads order urls =
     (case process_completed write (completed self net json_loads order urls)
             (initial_stats urls) [] of
        (st, f, Some e) \<Rightarrow> (f, Some (Inl e))
      | (st, f, None) \<Rightarrow>
          (f, if list_ex Option.is_none (outcomes self net json_loads order urls) then None
              else Some (Inr st)))"

text \<open>The state of the run after \<open>k\<close> completions: the statistics and the lines so far.\<close>

definition run_after ::
  "URLFetcher \<Rightarrow> 'c writer \<Rightarrow> (nat \<Rightarrow> transport) \<Rightarrow> (string \<Rightarrow> exn + 'c option) \<Rightarrow> nat list
   \<Rightarrow> string list \<Rightarrow> nat \<Rightarrow> stats \<times> 'c sink \<times> exn option" where
  "run_after self write net json_loads order urls k =
     process_completed write (take k (completed self net json_loads order urls))
       (initial_stats urls) []"

section \<open>The entry point: \<^verbatim>\<open>fetch_urls_from_file\<close>\<close>

text \<open>
  \<^verbatim>\<open>URLFetcher.__init__\<close> builds \<^verbatim>\<open>asyncio.Semaphore(max_concurrent)\<close>, which raises
  \<^verbatim>\<open>ValueError\<close> on a negative value.
\<close>

definition URLFetcher_init :: "int \<Rightarrow> int \<Rightarrow> exn + URLFetcher" where
  "URLFetcher_init mc mr =
     (if mc < 0 then Inl (Exception ''Semaphore initial value must be >= 0'')
      else Inr \<lparr>max_concurrent = mc, max_retries = mr\<rparr>)"

text \<open>The returned dict as a finite map, in which the empty dict \<^verbatim>\<open>{}\<close> is \<open>Map.empty\<close>.\<close>

definition stats_dict :: "stats \<Rightarrow> (string \<rightharpoonup> int)" where
  "stats_dict st =
     [''total'' \<mapsto> total_count st, ''successful'' \<mapsto> successful st, ''failed'' \<mapsto> failed st]"

text \<open>
  \<^verbatim>\<open>fetch_urls_from_file\<close>, on the outcome \<open>read_urls\<close> of \<^verbatim>\<open>read_urls_from_file\<close>. The
  \<^verbatim>\<open>except Exception\<close> clause logs and raises the exception again. The result is the
  lines written and what the caller gets, as for \<^verbatim>\<open>fetch_urls\<close>.
\<close>

definition fetch_urls_from_file ::
  "(exn + string list) \<Rightarrow> int \<Rightarrow> int \<Rightarrow> 'c writer \<Rightarrow> (nat \<Rightarrow> transport)
   \<Rightarrow> (string \<Rightarrow> exn + 'c option) \<Rightarrow> nat list \<Rightarrow> 'c sink \<times> (exn + (string \<rightharpoonup> int)) option" where
  "fetch_urls_from_file read_urls mc mr write net json_loads order =
     (case read_urls of
        Inl e \<Rightarrow> ([], Some (Inl e))
      | Inr urls \<Rightarrow>
          if urls = [] then ([], Some (Inr Map.empty))
          else
            (case URLFetcher_init mc mr of
               Inl e \<Rightarrow> ([], Some (Inl e))
             | Inr fetcher \<Rightarrow>
                 (case fetch_urls fetcher write net json_loads order urls of
                    (f, None) \<Rightarrow> (f, None)
                  | (f, Some (Inl e)) \<Rightarrow> (f, Some (Inl e))
                  | (f, Some (Inr st)) \<Rightarrow> (f, Some (Inr (stats_dict st))))))"

section \<open>The claims of the specification, in its words\<close>

text \<open>
  The invariant that the specification states for a \<^verbatim>\<open>FetchResult\<close>: success implies
  that the content is present and the error absent; failure implies the reverse.
\<close>

definition spec_result_invariant :: "'c FetchResult \<Rightarrow> bool" where
  "spec_result_invariant r =
     (if success r then content r \<noteq> None \<and> error r = None
      else content r = None \<and> error r \<noteq> None)"

definition starts_with :: "string \<Rightarrow> string \<Rightarrow> bool" where
  "starts_with p s = (take (length p) s = p)"

text \<open>
  The reasons that the specification lists for a terminal failure. Each of its five forms
  begins as written here, so a string outside this set has none of the forms.
\<close>

definition spec_error_form :: "string \<Rightarrow> bool" where
  "spec_error_form e =
     (starts_with ''HTTP '' e \<or> e = ''Timeout'' \<or> starts_with ''Client error: '' e \<or>
      starts_with ''Invalid content: '' e \<or> starts_with ''Unexpected error: '' e)"

text \<open>The results of the tasks that returned one.\<close>

fun returned :: "(exn + 'a) list \<Rightarrow> 'a list" where
  "returned [] = []"
| "returned (Inl e # xs) = returned xs"
| "returned (Inr r # xs) = r # returned xs"

text \<open>The sink that the specification describes: one record for each successful result.\<close>

definition spec_sink :: "(exn + 'c FetchResult) list \<Rightarrow> 'c sink" where
  "spec_sink results = map (\<lambda>r. (url r, content r)) (filter success (returned results))"

text \<open>
  What the loop writes for a list of results: one record for each result that is
  successful and has a content, in the order of the list.
\<close>

definition written :: "(exn + 'c FetchResult) list \<Rightarrow> 'c sink" where
  "written results =
     map (\<lambda>r. (url r, content r))
       (filter (\<lambda>r. success r \<and> content r \<noteq> None) (returned results))"

text \<open>The empty-statistics result that the specification describes for an empty input.\<close>

definition spec_empty_statistics :: "(string \<rightharpoonup> int) \<Rightarrow> bool" where
  "spec_empty_statistics d =
     (d ''total'' = Some 0 \<and> d ''successful'' = Some 0 \<and> d ''failed'' = Some 0)"

text \<open>Every record that the loop has to write for these results can be written.\<close>

definition writable :: "'c writer \<Rightarrow> (exn + 'c FetchResult) list \<Rightarrow> bool" where
  "writable write results =
     (\<forall>r \<in> set (returned results).
        success r \<and> content r \<noteq> None \<longrightarrow> write (url r) (content r) = None)"

text \<open>
  The writes of the examples below: the records whose content is \<^verbatim>\<open>{}\<close> or \<^verbatim>\<open>true\<close> are
  written; the record of \<^verbatim>\<open>http://b\<close> whose content is the string of the lone surrogate
  raises \<^verbatim>\<open>UnicodeEncodeError\<close>, the surrogate being the character of index 32 of its
  line.
\<close>

definition encode_error :: string where
  "encode_error =
     [CHR 0x27] @ ''utf-8'' @ [CHR 0x27] @ '' codec can'' @ [CHR 0x27] @ ''t encode character '' @
     [CHR 0x27, CHR 0x5C] @ ''ud800'' @ [CHR 0x27] @ '' in position 32: surrogates not allowed''"

definition write_sample :: "json writer" where
  "write_sample u c =
     (if u = ''http://b'' \<and> c = Some (JStr [0xD800]) then Some (Exception encode_error) else None)"







text \<open>The transports of a sample run: every task's exchanges answer alike.\<close>

definition net_null :: "nat \<Rightarrow> transport" where
  "net_null i = get_null"

text \<open>
  The scenario of the specification: five URLs, of which three answer 200 with valid
  JSON, one answers 500 forever and one times out forever.
\<close>

definition net_scenario :: "nat \<Rightarrow> transport" where
  "net_scenario i = (if i = 1 then get_500 else if i = 3 then get_timeout else get_ok)"

definition urls_scenario :: "string list" where
  "urls_scenario = [''http://a'', ''http://b'', ''http://c'', ''http://d'', ''http://e'']"

text \<open>An order of completion for the scenario: the last URL first.\<close>

definition order_scenario :: "nat list" where
  "order_scenario = [4, 0, 3, 1, 2]"

section \<open>The Concurrency Limiter and the interleaving of the tasks\<close>

text \<open>
  The slot discipline of a Fetch Operation: idle, holding a slot, inside an exchange,
  after the exchange and before the release. A sleep is allowed only while idle.
\<close>

datatype phase = Idle | Holding | InFlight | Finishing

fun next_phase :: "phase \<Rightarrow> event \<Rightarrow> phase option" where
  "next_phase Idle Acquire = Some Holding"
| "next_phase Holding (GetBegin u k) = Some InFlight"
| "next_phase InFlight GetEnd = Some Finishing"
| "next_phase Finishing Release = Some Idle"
| "next_phase Idle (Sleep d) = Some Idle"
| "next_phase p e = None"

fun run_phase :: "phase \<Rightarrow> event list \<Rightarrow> phase option" where
  "run_phase p [] = Some p"
| "run_phase p (e # es) = (case next_phase p e of None \<Rightarrow> None | Some q \<Rightarrow> run_phase q es)"

text \<open>The slots that a task holds after the events \<open>h\<close>: its acquires less its releases.\<close>

definition held :: "event list \<Rightarrow> int" where
  "held h = int (length (filter (\<lambda>e. e = Acquire) h)) - int (length (filter (\<lambda>e. e = Release) h))"

text \<open>A task is inside a Transport exchange when the last thing it did was to begin one.\<close>

definition in_exchange :: "event list \<Rightarrow> bool" where
  "in_exchange h = (h \<noteq> [] \<and> is_exchange (last h))"

fun is_sleep :: "event \<Rightarrow> bool" where
  "is_sleep (Sleep d) = True"
| "is_sleep e = False"

text \<open>A task is in its backoff sleep when the last thing it did was to start sleeping.\<close>

definition in_backoff :: "event list \<Rightarrow> bool" where
  "in_backoff h = (h \<noteq> [] \<and> is_sleep (last h))"

text \<open>
  The state of a run: the value of \<^verbatim>\<open>asyncio.Semaphore\<close>, that is the number of free
  slots, and for every task the events it has done and those it has yet to do.
\<close>

record sched =
  sem_value :: nat
  progress :: "(event list \<times> event list) list"

text \<open>
  The task at position \<open>i\<close> does its next event. The semaphore is the counting limiter of
  the specification: \<^verbatim>\<open>acquire\<close> takes a slot and cannot go on while none is free,
  \<^verbatim>\<open>release\<close> gives one back. \<open>None\<close>: the task has ended or is suspended.
\<close>

definition step_task :: "nat \<Rightarrow> sched \<Rightarrow> sched option" where
  "step_task i s =
     (if i < length (progress s) then
        (case progress s ! i of
           (h, []) \<Rightarrow> None
         | (h, e # todo) \<Rightarrow>
             (case e of
                Acquire \<Rightarrow>
                  if sem_value s = 0 then None
                  else Some \<lparr>sem_value = sem_value s - 1,
                             progress = (progress s)[i := (h @ [e], todo)]\<rparr>
              | Release \<Rightarrow>
                  Some \<lparr>sem_value = sem_value s + 1,
                        progress = (progress s)[i := (h @ [e], todo)]\<rparr>
              | _ \<Rightarrow>
                  Some \<lparr>sem_value = sem_value s,
                        progress = (progress s)[i := (h @ [e], todo)]\<rparr>))
      else None)"

text \<open>A schedule names the task that moves at each step; an impossible step ends it.\<close>

fun run_schedule :: "nat list \<Rightarrow> sched \<Rightarrow> sched option" where
  "run_schedule [] s = Some s"
| "run_schedule (i # sch) s =
     (case step_task i s of None \<Rightarrow> None | Some s' \<Rightarrow> run_schedule sch s')"

text \<open>
  The start of a run: \<^verbatim>\<open>asyncio.Semaphore(max_concurrent)\<close>, and every task with all the
  events of its Fetch Operation still to do.
\<close>

definition start ::
  "URLFetcher \<Rightarrow> (nat \<Rightarrow> transport) \<Rightarrow> (string \<Rightarrow> exn + 'c option) \<Rightarrow> string list \<Rightarrow> sched" where
  "start self net json_loads urls =
     \<lparr>sem_value = nat (max_concurrent self),
      progress = map (\<lambda>t. ([], fst t)) (tasks_of self net json_loads urls)\<rparr>"

text \<open>The number of tasks that are inside a Transport exchange.\<close>

definition active_exchanges :: "sched \<Rightarrow> nat" where
  "active_exchanges s = length (filter (\<lambda>t. in_exchange (fst t)) (progress s))"

text \<open>
  What every step keeps: the free slots and the slots held add up to the capacity, and
  the events of every task, done and to do, follow the slot discipline.
\<close>

definition sched_inv :: "int \<Rightarrow> sched \<Rightarrow> bool" where
  "sched_inv cap s =
     (int (sem_value s) + sum_list (map (\<lambda>t. held (fst t)) (progress s)) = cap \<and>
      list_all (\<lambda>t. run_phase Idle (fst t @ snd t) = Some Idle) (progress s))"

text \<open>The events that the tasks have yet to do.\<close>

definition remaining :: "sched \<Rightarrow> nat" where
  "remaining s = sum_list (map (\<lambda>t. length (snd t)) (progress s))"

text \<open>
  A fetcher with a single slot and one retry, and a run of two URLs: the first answers
  500 forever, the second answers 200 with valid JSON.
\<close>

definition single_slot_fetcher :: URLFetcher where
  "single_slot_fetcher = \<lparr>max_concurrent = 1, max_retries = 1\<rparr>"

definition net_pair :: "nat \<Rightarrow> transport" where
  "net_pair i = (if i = 0 then get_500 else get_ok)"

definition urls_pair :: "string list" where
  "urls_pair = [''http://a'', ''http://b'']"

text \<open>
  The first task makes its first attempt and starts its backoff sleep; meanwhile the
  second task takes the slot and begins its exchange.
\<close>

definition schedule_pair :: "nat list" where
  "schedule_pair = [0, 0, 0, 0, 0, 1, 1]"

text \<open>The second task tries to take the slot while the first is inside its exchange.\<close>

definition schedule_blocked :: "nat list" where
  "schedule_blocked = [0, 0, 1]"

section \<open>Properties of the Fetch Operation\<close>

lemma give_up_Continue: "give_up self u a m = Continue \<Longrightarrow> a \<noteq> max_retries self"
  by (simp add: give_up_def split: if_splits)

lemma handlers_Continue: "handlers self u a e = Inr Continue \<Longrightarrow> a \<noteq> max_retries self"
  by (cases e) (auto dest: give_up_Continue)

lemma try_body_Continue: "try_body self g l u a = Inr Continue \<Longrightarrow> a \<noteq> max_retries self"
  unfolding try_body_def
  by (auto split: sum.splits if_splits exn.splits dest: give_up_Continue)

lemma attempt_step_Continue:
  assumes step: "attempt_step self g l u a = Inr Continue"
  shows "a \<noteq> max_retries self"
proof (cases "try_body self g l u a")
  case (Inl e)
  with step have "handlers self u a e = (Inr Continue :: exn + 'a step)"
    by (simp add: attempt_step_def)
  then show ?thesis by (rule handlers_Continue)
next
  case (Inr s)
  with step have "try_body self g l u a = Inr Continue"
    by (simp add: attempt_step_def)
  then show ?thesis by (rule try_body_Continue)
qed

text \<open>The loop, one pass at a time.\<close>

lemma fetch_loop_below_budget:
  "\<not> attempt < max_retries self + 1 \<Longrightarrow>
   fetch_loop self g l u attempt = ([], ReturnAfterLoop (failure_result u ''Max retries exceeded''))"
  by (subst fetch_loop.simps) simp

lemma fetch_loop_no_slot:
  "a < max_retries self + 1 \<Longrightarrow> max_concurrent self < 1 \<Longrightarrow>
   fetch_loop self g l u a = ([], Suspended)"
  by (subst fetch_loop.simps) simp

lemma fetch_loop_raise:
  "a < max_retries self + 1 \<Longrightarrow> 1 \<le> max_concurrent self \<Longrightarrow>
   attempt_step self g l u a = Inl e \<Longrightarrow>
   fetch_loop self g l u a = (attempt_events u a, Propagate e)"
  by (subst fetch_loop.simps) simp

lemma fetch_loop_return:
  "a < max_retries self + 1 \<Longrightarrow> 1 \<le> max_concurrent self \<Longrightarrow>
   attempt_step self g l u a = Inr (Return r) \<Longrightarrow>
   fetch_loop self g l u a = (attempt_events u a, ReturnInLoop r)"
  by (subst fetch_loop.simps) simp

lemma fetch_loop_continue:
  "a < max_retries self + 1 \<Longrightarrow> 1 \<le> max_concurrent self \<Longrightarrow>
   attempt_step self g l u a = Inr Continue \<Longrightarrow>
   fetch_loop self g l u a =
     (attempt_events u a @ [Sleep (1 * (a + 1))] @ fst (fetch_loop self g l u (a + 1)),
      snd (fetch_loop self g l u (a + 1)))"
  using attempt_step_Continue [of self g l u a]
  by (subst fetch_loop.simps) (simp add: case_prod_beta)

text \<open>
  Every way in which a pass of the loop goes on or ends; the proofs about the loop go by
  induction on the attempts that are left, with these cases.
\<close>

lemma fetch_loop_cases:
  obtains
    (Below) "\<not> a < max_retries self + 1"
      "fetch_loop self g l u a = ([], ReturnAfterLoop (failure_result u ''Max retries exceeded''))"
  | (NoSlot) "a < max_retries self + 1" "max_concurrent self < 1"
      "fetch_loop self g l u a = ([], Suspended)"
  | (Raise) e where "a < max_retries self + 1" "1 \<le> max_concurrent self"
      "attempt_step self g l u a = Inl e"
      "fetch_loop self g l u a = (attempt_events u a, Propagate e)"
  | (Ret) r where "a < max_retries self + 1" "1 \<le> max_concurrent self"
      "attempt_step self g l u a = Inr (Return r)"
      "fetch_loop self g l u a = (attempt_events u a, ReturnInLoop r)"
  | (Cont) "a < max_retries self" "1 \<le> max_concurrent self"
      "attempt_step self g l u a = Inr Continue"
      "fetch_loop self g l u a =
         (attempt_events u a @ [Sleep (1 * (a + 1))] @ fst (fetch_loop self g l u (a + 1)),
          snd (fetch_loop self g l u (a + 1)))"
proof (cases "a < max_retries self + 1")
  case False
  then show ?thesis using Below fetch_loop_below_budget by blast
next
  case True
  show ?thesis
  proof (cases "max_concurrent self < 1")
    case True
    with \<open>a < max_retries self + 1\<close> show ?thesis using NoSlot fetch_loop_no_slot by blast
  next
    case False
    then have mc: "1 \<le> max_concurrent self" by simp
    show ?thesis
    proof (cases "attempt_step self g l u a")
      case (Inl e)
      with True mc show ?thesis using Raise fetch_loop_raise by blast
    next
      case (Inr st)
      show ?thesis
      proof (cases st)
        case (Return r)
        with Inr True mc show ?thesis using Ret fetch_loop_return by blast
      next
        case Continue
        with Inr have step: "attempt_step self g l u a = Inr Continue" by simp
        from attempt_step_Continue [OF step] True have "a < max_retries self" by simp
        with step True mc show ?thesis using Cont fetch_loop_continue by blast
      qed
    qed
  qed
qed

text \<open>Induction on the attempts that are left.\<close>

lemma attempts_induct [consumes 0, case_names attempt]:
  assumes "\<And>a. (\<And>b. a < b \<Longrightarrow> b \<le> a + 1 \<Longrightarrow> a < mr \<Longrightarrow> P b) \<Longrightarrow> P a"
  shows "P (a :: int)"
proof (induction "nat (mr - a)" arbitrary: a rule: less_induct)
  case less
  show ?case
  proof (rule assms)
    fix b assume "a < b" "b \<le> a + 1" "a < mr"
    then have "nat (mr - b) < nat (mr - a)" by simp
    then show "P b" by (rule less)
  qed
qed

text \<open>
  From an attempt within the budget, with a slot to be had, the loop makes some \<open>n\<close>
  attempts that fall through, each with its sleep, then one attempt that ends the
  function inside the loop.
\<close>

lemma fetch_loop_shape:
  "1 \<le> max_concurrent self \<Longrightarrow> a \<le> max_retries self \<Longrightarrow>
   \<exists>n. a + int n \<le> max_retries self \<and>
       fst (fetch_loop self g l u a) = retry_events u a n @ attempt_events u (a + int n) \<and>
       (\<forall>r. snd (fetch_loop self g l u a) \<noteq> ReturnAfterLoop r) \<and>
       snd (fetch_loop self g l u a) \<noteq> Suspended"
proof (induction a rule: attempts_induct [where mr = "max_retries self"])
  case (attempt a)
  show ?case
  proof (cases rule: fetch_loop_cases [of a self g l u])
    case Below
    with attempt.prems show ?thesis by simp
  next
    case NoSlot
    with attempt.prems show ?thesis by simp
  next
    case (Raise e)
    with attempt.prems show ?thesis by (intro exI [of _ 0]) simp
  next
    case (Ret r)
    with attempt.prems show ?thesis by (intro exI [of _ 0]) simp
  next
    case Cont
    from attempt.IH [of "a + 1"] Cont(1) attempt.prems(1) obtain n where
      n: "a + 1 + int n \<le> max_retries self"
         "fst (fetch_loop self g l u (a + 1)) =
            retry_events u (a + 1) n @ attempt_events u (a + 1 + int n)"
         "\<forall>r. snd (fetch_loop self g l u (a + 1)) \<noteq> ReturnAfterLoop r"
         "snd (fetch_loop self g l u (a + 1)) \<noteq> Suspended"
      by auto
    show ?thesis
      using n Cont(4) by (intro exI [of _ "Suc n"]) (simp add: ac_simps)
  qed
qed

lemma fst_fetch_single_url:
  "fst (fetch_single_url self g l u) = fst (fetch_loop self g l u 0)"
  by (simp add: fetch_single_url_def split: prod.splits exit.splits)

lemma snd_fetch_single_url:
  "snd (fetch_single_url self g l u) =
     (case snd (fetch_loop self g l u 0) of
        ReturnInLoop r \<Rightarrow> Some (Inr r)
      | ReturnAfterLoop r \<Rightarrow> Some (Inr r)
      | Propagate e \<Rightarrow> Some (Inl e)
      | Suspended \<Rightarrow> None)"
  by (simp add: fetch_single_url_def split: prod.splits exit.splits)

lemma exchanges_append: "exchanges (xs @ ys) = exchanges xs + exchanges ys"
  by (simp add: exchanges_def)

lemma exchanges_attempt_events: "exchanges (attempt_events u a) = 1"
  by (simp add: exchanges_def attempt_events_def)

lemma exchanges_Sleep: "exchanges (Sleep d # evs) = exchanges evs"
  by (simp add: exchanges_def)

lemma exchanges_retry_events: "exchanges (retry_events u a n) = n"
  by (induction n arbitrary: a)
     (simp_all add: exchanges_append exchanges_attempt_events exchanges_Sleep, simp add: exchanges_def)

lemma sleeps_attempt_events: "sleeps (attempt_events u a @ evs) = sleeps evs"
  by (simp add: attempt_events_def)

lemma sleeps_retry_events:
  "sleeps (retry_events u a n @ attempt_events u b) = map (\<lambda>k. 1 * (a + int k + 1)) [0..<n]"
proof (induction n arbitrary: a)
  case 0
  have "sleeps (attempt_events u b @ []) = []"
    by (simp only: sleeps_attempt_events sleeps.simps)
  then show ?case by simp
next
  case (Suc n)
  have "map (\<lambda>k. 1 * (a + int k + 1)) [0..<Suc n] =
        (1 * (a + 1)) # map (\<lambda>k. 1 * (a + 1 + int k + 1)) [0..<n]"
    by (simp add: upt_conv_Cons map_Suc_upt [symmetric] ac_simps del: upt_Suc)
  then show ?case
    using Suc.IH [of "a + 1"] by (simp add: sleeps_attempt_events)
qed

text \<open>Without a slot to be had, the operation does nothing and never ends.\<close>

lemma fetch_single_url_no_slot:
  "0 \<le> max_retries self \<Longrightarrow> max_concurrent self < 1 \<Longrightarrow>
   fetch_single_url self g l u = ([], None)"
  by (simp add: fetch_single_url_def fetch_loop_no_slot)

text \<open>With a negative \<^verbatim>\<open>max_retries\<close> the loop body never runs and the fallback is reached.\<close>

lemma fallback_reached_negative_retries:
  "fetch_loop \<lparr>max_concurrent = 5, max_retries = - 1\<rparr> get_ok loads_sample ''http://a'' 0 =
     ([], ReturnAfterLoop (failure_result ''http://a'' ''Max retries exceeded''))"
  by (rule fetch_loop_below_budget) simp

section \<open>Claims about the Fetch Operation\<close>

text \<open>
  C1. With \<^verbatim>\<open>max_retries >= 0\<close>, one Fetch Operation performs at most
  \<^verbatim>\<open>max_retries + 1\<close> Transport exchanges (calls of \<^verbatim>\<open>session.get\<close>) before it ends,
  whatever the URL, the transport and the parser.
\<close>

theorem exchanges_at_most_retries_plus_one:
  assumes "0 \<le> max_retries self"
  shows "int (exchanges (fst (fetch_single_url self g l u))) \<le> max_retries self + 1"
proof (cases "1 \<le> max_concurrent self")
  case True
  from fetch_loop_shape [OF True, of 0 g l u] assms obtain n where
    n: "int n \<le> max_retries self"
       "fst (fetch_loop self g l u 0) = retry_events u 0 n @ attempt_events u (int n)"
    by auto
  have "exchanges (fst (fetch_single_url self g l u)) = n + 1"
    by (simp add: fst_fetch_single_url n(2) exchanges_append exchanges_retry_events
        exchanges_attempt_events)
  with n(1) show ?thesis by simp
next
  case False
  with assms have "fetch_single_url self g l u = ([], None)"
    by (simp add: fetch_single_url_no_slot)
  with assms show ?thesis by (simp add: exchanges_def)
qed

theorem exchanges_at_most_retries_plus_one_witness:
  "0 \<le> max_retries default_fetcher \<and>
   int (exchanges (fst (fetch_single_url default_fetcher get_500 loads_sample ''http://a'')))
     \<le> max_retries default_fetcher + 1"
  using exchanges_at_most_retries_plus_one [of default_fetcher get_500 loads_sample "''http://a''"]
  by (simp add: default_fetcher_def)

text \<open>
  C2. With \<^verbatim>\<open>max_retries >= 0\<close> and a slot to be had, the trace of a Fetch Operation
  is \<open>n \<le> max_retries\<close> attempts that each end in a sleep, followed by one last attempt
  without a sleep; so the sleep after attempt \<open>k\<close> happens only when attempt \<open>k + 1\<close>
  follows, and then \<open>k < max_retries\<close>. The delay slept after attempt \<open>k\<close> is
  \<open>1 * (k + 1)\<close>, the base delay being the literal \<open>1\<close> of the source, and the delays are
  strictly increasing. Without a slot to be had there is no attempt and no sleep.
\<close>

theorem backoff_delay_linear:
  assumes "0 \<le> max_retries self"
  shows "\<exists>n. int n \<le> max_retries self \<and>
           (if 1 \<le> max_concurrent self
            then fst (fetch_single_url self g l u) = retry_events u 0 n @ attempt_events u (int n)
            else fst (fetch_single_url self g l u) = []) \<and>
           sleeps (fst (fetch_single_url self g l u)) = map (\<lambda>k. 1 * (int k + 1)) [0..<n] \<and>
           sorted_wrt (<) (sleeps (fst (fetch_single_url self g l u)))"
proof (cases "1 \<le> max_concurrent self")
  case True
  from fetch_loop_shape [OF True, of 0 g l u] assms obtain n where
    n: "int n \<le> max_retries self"
       "fst (fetch_loop self g l u 0) = retry_events u 0 n @ attempt_events u (int n)"
    by auto
  have sl: "sleeps (fst (fetch_single_url self g l u)) = map (\<lambda>k. 1 * (int k + 1)) [0..<n]"
    using sleeps_retry_events [of u 0 n "int n"] by (simp add: fst_fetch_single_url n(2))
  have "sorted_wrt (<) (map (\<lambda>k. 1 * (int k + 1)) [0..<n])"
    by (simp add: sorted_wrt_iff_nth_less)
  with n sl True show ?thesis
    by (intro exI [of _ n]) (simp add: fst_fetch_single_url)
next
  case False
  with assms have "fetch_single_url self g l u = ([], None)"
    by (simp add: fetch_single_url_no_slot)
  with assms False show ?thesis by (intro exI [of _ 0]) simp
qed

theorem backoff_delay_linear_witness:
  "0 \<le> max_retries default_fetcher \<and>
   1 \<le> max_concurrent default_fetcher \<and>
   fst (fetch_single_url default_fetcher get_500 loads_sample ''http://a'') =
     retry_events ''http://a'' 0 2 @ attempt_events ''http://a'' (int 2) \<and>
   sleeps (fst (fetch_single_url default_fetcher get_500 loads_sample ''http://a'')) = [1, 2] \<and>
   (\<exists>n. int n \<le> max_retries default_fetcher \<and>
        fst (fetch_single_url default_fetcher get_500 loads_sample ''http://a'') =
          retry_events ''http://a'' 0 n @ attempt_events ''http://a'' (int n) \<and>
        sleeps (fst (fetch_single_url default_fetcher get_500 loads_sample ''http://a'')) =
          map (\<lambda>k. 1 * (int k + 1)) [0..<n] \<and>
        sorted_wrt (<) (sleeps (fst (fetch_single_url default_fetcher get_500 loads_sample ''http://a''))))"
proof -
  have tr: "fst (fetch_single_url default_fetcher get_500 loads_sample ''http://a'') =
     retry_events ''http://a'' 0 2 @ attempt_events ''http://a'' (int 2)"
    by (simp add: fetch_single_url_def fetch_loop.simps attempt_step_def try_body_def give_up_def
        attempt_events_def failure_result_def default_fetcher_def get_500_def numeral_2_eq_2)
  have sl: "sleeps (retry_events ''http://a'' 0 2 @ attempt_events ''http://a'' (int 2)) = [1, 2]"
    by (simp add: attempt_events_def numeral_2_eq_2)
  from backoff_delay_linear [of default_fetcher get_500 loads_sample "''http://a''"] tr sl
  show ?thesis by (simp add: default_fetcher_def)
qed

text \<open>
  C9. With \<^verbatim>\<open>max_retries >= 0\<close>, the statement after the loop, which returns the error
  \<^verbatim>\<open>"Max retries exceeded"\<close>, is not reached: the function never ends there, because the
  attempt with index \<^verbatim>\<open>max_retries\<close> never falls through.
\<close>

theorem fallback_unreachable:
  assumes "0 \<le> max_retries self"
  shows "(\<forall>r. snd (fetch_loop self g l u 0) \<noteq> ReturnAfterLoop r) \<and>
         attempt_step self g l u (max_retries self) \<noteq> Inr Continue"
proof
  show "\<forall>r. snd (fetch_loop self g l u 0) \<noteq> ReturnAfterLoop r"
  proof (cases "1 \<le> max_concurrent self")
    case True
    from fetch_loop_shape [OF True, of 0 g l u] assms show ?thesis by auto
  next
    case False
    with assms show ?thesis by (simp add: fetch_loop_no_slot)
  qed
next
  show "attempt_step self g l u (max_retries self) \<noteq> Inr Continue"
    using attempt_step_Continue [of self g l u "max_retries self"] by blast
qed

theorem fallback_unreachable_witness:
  "0 \<le> max_retries default_fetcher \<and>
   (\<forall>r. snd (fetch_loop default_fetcher get_timeout loads_sample ''http://a'' 0) \<noteq> ReturnAfterLoop r) \<and>
   attempt_step default_fetcher get_timeout loads_sample ''http://a'' (max_retries default_fetcher)
     \<noteq> Inr Continue"
  using fallback_unreachable [of default_fetcher get_timeout loads_sample "''http://a''"]
  by (simp add: default_fetcher_def)

section \<open>What a Fetch Operation returns\<close>

lemma attempt_step_outcome:
  "attempt_step self g l u k =
     (case exchange_outcome g l u k of
        Parsed v \<Rightarrow> Inr (Return (success_result u v))
      | HttpStatus c \<Rightarrow> Inr (give_up self u k (''HTTP '' @ str_int c))
      | DecodeError m \<Rightarrow> Inr (give_up self u k (''Invalid JSON: '' @ m))
      | Raised e \<Rightarrow> handlers self u k e)"
  unfolding attempt_step_def try_body_def exchange_outcome_def
  by (simp split: sum.splits exn.splits)

lemma give_up_Return:
  "give_up self u k msg = Return r \<Longrightarrow> k = max_retries self \<and> r = failure_result u msg"
  by (simp add: give_up_def split: if_splits)

text \<open>
  A return inside the loop comes from the attempt \<open>k\<close> that returned, after the attempts
  before it and their sleeps.
\<close>

lemma fetch_loop_ReturnInLoop_trace:
  "snd (fetch_loop self g l u a) = ReturnInLoop r \<Longrightarrow>
   \<exists>k. a \<le> k \<and> k \<le> max_retries self \<and> attempt_step self g l u k = Inr (Return r) \<and>
       (\<forall>j. a \<le> j \<and> j < k \<longrightarrow> attempt_step self g l u j = Inr Continue) \<and>
       fst (fetch_loop self g l u a) = retry_events u a (nat (k - a)) @ attempt_events u k"
proof (induction a rule: attempts_induct [where mr = "max_retries self"])
  case (attempt a)
  show ?case
  proof (cases rule: fetch_loop_cases [of a self g l u])
    case Below
    with attempt.prems show ?thesis by simp
  next
    case NoSlot
    with attempt.prems show ?thesis by simp
  next
    case (Raise e)
    with attempt.prems show ?thesis by simp
  next
    case (Ret r')
    with attempt.prems have "r' = r" by simp
    with Ret show ?thesis by (intro exI [of _ a]) auto
  next
    case Cont
    with attempt.prems have "snd (fetch_loop self g l u (a + 1)) = ReturnInLoop r" by simp
    from attempt.IH [of "a + 1", OF _ _ Cont(1) this] obtain k where
      k: "a + 1 \<le> k" "k \<le> max_retries self" "attempt_step self g l u k = Inr (Return r)"
         "\<forall>j. a + 1 \<le> j \<and> j < k \<longrightarrow> attempt_step self g l u j = Inr Continue"
         "fst (fetch_loop self g l u (a + 1)) =
            retry_events u (a + 1) (nat (k - (a + 1))) @ attempt_events u k"
      by auto
    have before: "\<forall>j. a \<le> j \<and> j < k \<longrightarrow> attempt_step self g l u j = Inr Continue"
    proof (intro allI impI)
      fix j assume j: "a \<le> j \<and> j < k"
      show "attempt_step self g l u j = Inr Continue"
      proof (cases "j = a")
        case True
        with Cont(3) show ?thesis by simp
      next
        case False
        with j k(4) show ?thesis by simp
      qed
    qed
    from k(1) have "nat (k - a) = Suc (nat (k - (a + 1)))" by simp
    with k(1,2,3,5) before Cont(4) show ?thesis by (intro exI [of _ k]) simp
  qed
qed

lemma fetch_loop_ReturnInLoop:
  "snd (fetch_loop self g l u a) = ReturnInLoop r \<Longrightarrow>
   \<exists>k. a \<le> k \<and> k \<le> max_retries self \<and> attempt_step self g l u k = Inr (Return r)"
  using fetch_loop_ReturnInLoop_trace by blast


lemma fetch_loop_ReturnAfterLoop:
  "snd (fetch_loop self g l u a) = ReturnAfterLoop r \<Longrightarrow>
   r = failure_result u ''Max retries exceeded''"
proof (induction a rule: attempts_induct [where mr = "max_retries self"])
  case (attempt a)
  show ?case
  proof (cases rule: fetch_loop_cases [of a self g l u])
    case Below
    with attempt.prems show ?thesis by simp
  next
    case NoSlot
    with attempt.prems show ?thesis by simp
  next
    case (Raise e)
    with attempt.prems show ?thesis by simp
  next
    case (Ret r')
    with attempt.prems show ?thesis by simp
  next
    case Cont
    with attempt.prems have "snd (fetch_loop self g l u (a + 1)) = ReturnAfterLoop r" by simp
    from attempt.IH [of "a + 1", OF _ _ Cont(1) this] show ?thesis by simp
  qed
qed


text \<open>A result comes from a parsed value, from a failure on the last attempt, or from the fallback.\<close>

lemma fetch_single_url_Inr:
  assumes "snd (fetch_single_url self g l u) = Some (Inr r)"
  shows "(\<exists>k. 0 \<le> k \<and> k \<le> max_retries self \<and> attempt_step self g l u k = Inr (Return r)) \<or>
         (max_retries self < 0 \<and> r = failure_result u ''Max retries exceeded'')"
proof (cases "snd (fetch_loop self g l u 0)")
  case (ReturnInLoop r')
  with assms have "r' = r" by (simp add: snd_fetch_single_url)
  with ReturnInLoop fetch_loop_ReturnInLoop [of self g l u 0 r] show ?thesis by simp
next
  case (ReturnAfterLoop r')
  with assms have r: "r' = r" by (simp add: snd_fetch_single_url)
  have "max_retries self < 0"
  proof (rule ccontr)
    assume "\<not> max_retries self < 0"
    then have mr: "0 \<le> max_retries self" by simp
    show False
    proof (cases "1 \<le> max_concurrent self")
      case True
      from fetch_loop_shape [OF True, of 0 g l u] mr ReturnAfterLoop show False by auto
    next
      case False
      with mr ReturnAfterLoop show False by (simp add: fetch_loop_no_slot)
    qed
  qed
  with r ReturnAfterLoop fetch_loop_ReturnAfterLoop [of self g l u 0 r] show ?thesis by simp
next
  case (Propagate e)
  with assms show ?thesis by (simp add: snd_fetch_single_url)
next
  case Suspended
  with assms show ?thesis by (simp add: snd_fetch_single_url)
qed

lemma handlers_Return:
  assumes "handlers self u k e = Inr (Return r)"
  shows "k = max_retries self \<and>
         ((\<exists>m. e = TimeoutError m \<and> r = failure_result u ''Timeout'') \<or>
          (\<exists>m. e = ClientError m \<and> r = failure_result u (''Client error: '' @ m)) \<or>
          (\<exists>m. (e = JSONDecodeError m \<or> e = Exception m) \<and>
               r = failure_result u (''Unexpected error: '' @ m)))"
  using assms by (cases e) (auto dest: give_up_Return)

lemma attempt_step_Return:
  assumes "attempt_step self g l u k = Inr (Return r)"
  shows "(\<exists>v. exchange_outcome g l u k = Parsed v \<and> r = success_result u v) \<or>
         (k = max_retries self \<and>
          ((\<exists>c. exchange_outcome g l u k = HttpStatus c \<and>
                r = failure_result u (''HTTP '' @ str_int c)) \<or>
           (\<exists>m. exchange_outcome g l u k = Raised (TimeoutError m) \<and>
                r = failure_result u ''Timeout'') \<or>
           (\<exists>m. exchange_outcome g l u k = Raised (ClientError m) \<and>
                r = failure_result u (''Client error: '' @ m)) \<or>
           (\<exists>m. exchange_outcome g l u k = DecodeError m \<and>
                r = failure_result u (''Invalid JSON: '' @ m)) \<or>
           (\<exists>m. (exchange_outcome g l u k = Raised (JSONDecodeError m) \<or>
                 exchange_outcome g l u k = Raised (Exception m)) \<and>
                r = failure_result u (''Unexpected error: '' @ m))))"
proof (cases "exchange_outcome g l u k")
  case (Parsed v)
  with assms show ?thesis by (simp add: attempt_step_outcome)
next
  case (HttpStatus c)
  with assms show ?thesis by (auto simp: attempt_step_outcome dest: give_up_Return)
next
  case (DecodeError m)
  with assms show ?thesis by (auto simp: attempt_step_outcome dest: give_up_Return)
next
  case (Raised e)
  with assms have "handlers self u k e = Inr (Return r)" by (simp add: attempt_step_outcome)
  from handlers_Return [OF this] Raised show ?thesis by auto
qed

text \<open>An attempt that falls through ended in a failure.\<close>

lemma handlers_Continue_caught: "handlers self u k e = Inr Continue \<Longrightarrow> \<forall>m. e \<noteq> BaseException m"
  by (cases e) auto

lemma attempt_step_Continue_failure:
  assumes "attempt_step self g l u k = Inr Continue"
  shows "is_failure (exchange_outcome g l u k)"
proof (cases "exchange_outcome g l u k")
  case (Parsed v)
  with assms show ?thesis by (simp add: attempt_step_outcome)
next
  case (HttpStatus c)
  then show ?thesis by simp
next
  case (DecodeError m)
  then show ?thesis by simp
next
  case (Raised e)
  with assms have "handlers self u k e = (Inr Continue :: exn + 'a step)"
    by (simp add: attempt_step_outcome)
  from handlers_Continue_caught [OF this] Raised show ?thesis by (cases e) simp_all
qed

text \<open>
  A successful result carries the URL of the operation and the value parsed on the last
  attempt that the operation made.
\<close>

lemma success_last_attempt:
  assumes ret: "snd (fetch_single_url self g l u) = Some (Inr r)" and succ: "success r"
  shows "url r = u \<and>
         (\<exists>k. last_attempt self g l u k \<and> exchange_outcome g l u k = Parsed (content r))"
proof -
  have inloop: "snd (fetch_loop self g l u 0) = ReturnInLoop r"
  proof (cases "snd (fetch_loop self g l u 0)")
    case (ReturnInLoop r')
    with ret show ?thesis by (simp add: snd_fetch_single_url)
  next
    case (ReturnAfterLoop r')
    with ret have "r' = r" by (simp add: snd_fetch_single_url)
    with ReturnAfterLoop fetch_loop_ReturnAfterLoop [of self g l u 0 r] succ
    show ?thesis by (simp add: failure_result_def)
  next
    case (Propagate e)
    with ret show ?thesis by (simp add: snd_fetch_single_url)
  next
    case Suspended
    with ret show ?thesis by (simp add: snd_fetch_single_url)
  qed
  from fetch_loop_ReturnInLoop_trace [OF inloop] obtain k where
    k: "0 \<le> k" "k \<le> max_retries self" "attempt_step self g l u k = Inr (Return r)"
       "\<forall>j. 0 \<le> j \<and> j < k \<longrightarrow> attempt_step self g l u j = Inr Continue"
       "fst (fetch_loop self g l u 0) = retry_events u 0 (nat (k - 0)) @ attempt_events u k"
    by blast
  have "\<forall>j \<in> {0..<k}. is_failure (exchange_outcome g l u j)"
    using k(4) attempt_step_Continue_failure [of self g l u] by simp
  with k(1,2,5) have last: "last_attempt self g l u k"
    by (simp add: last_attempt_def fst_fetch_single_url)
  have "\<not> (\<exists>msg. r = failure_result u msg)"
    using succ by (auto simp: failure_result_def)
  with attempt_step_Return [OF k(3)] obtain v where
    "exchange_outcome g l u k = Parsed v" "r = success_result u v" by blast
  with last show ?thesis by (auto simp: success_result_def)
qed

section \<open>The sample runs, evaluated\<close>

lemmas fetch_eval =
  fetch_single_url_def fetch_loop.simps attempt_step_def try_body_def give_up_def
  attempt_events_def success_result_def failure_result_def str_int_def
  default_fetcher_def loads_sample_def surrogate_body_def
  get_ok_def get_500_def get_null_def get_malformed_def get_flaky_def get_timeout_def

lemma fetch_ok:
  "fetch_single_url default_fetcher get_ok loads_sample u =
     ([Acquire, GetBegin u 0, GetEnd, Release],
      Some (Inr \<lparr>url = u, success = True, content = Some (JDict []), error = None\<rparr>))"
  by (simp add: fetch_eval)

lemma fetch_null:
  "fetch_single_url default_fetcher get_null loads_sample u =
     ([Acquire, GetBegin u 0, GetEnd, Release],
      Some (Inr \<lparr>url = u, success = True, content = None, error = None\<rparr>))"
  by (simp add: fetch_eval)

lemma fetch_500:
  "fetch_single_url default_fetcher get_500 loads_sample u =
     ([Acquire, GetBegin u 0, GetEnd, Release, Sleep 1,
       Acquire, GetBegin u 1, GetEnd, Release, Sleep 2,
       Acquire, GetBegin u 2, GetEnd, Release],
      Some (Inr \<lparr>url = u, success = False, content = None, error = Some ''HTTP 500''\<rparr>))"
  by (simp add: fetch_eval)

lemma fetch_timeout:
  "fetch_single_url default_fetcher get_timeout loads_sample u =
     ([Acquire, GetBegin u 0, GetEnd, Release, Sleep 1,
       Acquire, GetBegin u 1, GetEnd, Release, Sleep 2,
       Acquire, GetBegin u 2, GetEnd, Release],
      Some (Inr \<lparr>url = u, success = False, content = None, error = Some ''Timeout''\<rparr>))"
  by (simp add: fetch_eval)

lemma fetch_malformed:
  "fetch_single_url default_fetcher get_malformed loads_sample u =
     ([Acquire, GetBegin u 0, GetEnd, Release, Sleep 1,
       Acquire, GetBegin u 1, GetEnd, Release, Sleep 2,
       Acquire, GetBegin u 2, GetEnd, Release],
      Some (Inr \<lparr>url = u, success = False, content = None,
           error = Some ''Invalid JSON: Expecting value: line 1 column 1 (char 0)''\<rparr>))"
  by (simp add: fetch_eval)

text \<open>
  The scenario of the specification: malformed JSON twice, then valid JSON, ends in
  success after exactly three exchanges.
\<close>

lemma fetch_flaky:
  "fetch_single_url default_fetcher get_flaky loads_sample u =
     ([Acquire, GetBegin u 0, GetEnd, Release, Sleep 1,
       Acquire, GetBegin u 1, GetEnd, Release, Sleep 2,
       Acquire, GetBegin u 2, GetEnd, Release],
      Some (Inr \<lparr>url = u, success = True, content = Some (JDict []), error = None\<rparr>))"
  by (simp add: fetch_eval)

section \<open>Claims about the result of a Fetch Operation\<close>

text \<open>
  C5, as the specification states it, fails: a body that is the JSON text \<^verbatim>\<open>null\<close>
  parses to \<^verbatim>\<open>None\<close>, and the result has \<^verbatim>\<open>success == True\<close> with no content.
\<close>

theorem success_without_content_counterexample:
  "snd (fetch_single_url default_fetcher get_null loads_sample ''http://a'') =
     Some (Inr \<lparr>url = ''http://a'', success = True, content = None, error = None\<rparr>) \<and>
   \<not> spec_result_invariant
       \<lparr>url = ''http://a'', success = True, content = None :: json option, error = None\<rparr>"
  by (simp add: fetch_null spec_result_invariant_def)

text \<open>
  C5, amended. For every \<^verbatim>\<open>FetchResult\<close> that a Fetch Operation returns: if
  \<^verbatim>\<open>success\<close> is true, the error is absent and the content is the value that
  \<^verbatim>\<open>json.loads\<close> returned on the body of the 200 response of the last attempt that the
  operation made, every attempt before it having failed (the value is \<^verbatim>\<open>None\<close> for the
  JSON text \<^verbatim>\<open>null\<close>); if \<^verbatim>\<open>success\<close> is false, the content is absent and the error is
  present.
\<close>

theorem result_content_and_error:
  assumes "snd (fetch_single_url self g l u) = Some (Inr r)"
  shows "(success r \<longrightarrow>
            error r = None \<and> url r = u \<and>
            (\<exists>k. last_attempt self g l u k \<and> exchange_outcome g l u k = Parsed (content r))) \<and>
         (\<not> success r \<longrightarrow> content r = None \<and> error r \<noteq> None)"
proof (intro conjI impI)
  assume succ: "success r"
  from success_last_attempt [OF assms succ]
  show "url r = u"
    and "\<exists>k. last_attempt self g l u k \<and> exchange_outcome g l u k = Parsed (content r)"
    by simp_all
  from fetch_single_url_Inr [OF assms] succ obtain k where
    "attempt_step self g l u k = Inr (Return r)" by (auto simp: failure_result_def)
  from attempt_step_Return [OF this] succ show "error r = None"
    by (auto simp: success_result_def failure_result_def)
next
  assume fail: "\<not> success r"
  from fetch_single_url_Inr [OF assms] have "\<exists>msg. r = failure_result u msg"
  proof
    assume "\<exists>k. 0 \<le> k \<and> k \<le> max_retries self \<and> attempt_step self g l u k = Inr (Return r)"
    then obtain k where "attempt_step self g l u k = Inr (Return r)" by blast
    from attempt_step_Return [OF this] fail show ?thesis
      by (auto simp: success_result_def)
  next
    assume "max_retries self < 0 \<and> r = failure_result u ''Max retries exceeded''"
    then show ?thesis by blast
  qed
  then show "content r = None" and "error r \<noteq> None"
    by (auto simp: failure_result_def)
qed

lemma last_attempt_ok: "last_attempt default_fetcher get_ok loads_sample u 0"
  by (simp add: last_attempt_def fetch_ok attempt_events_def, simp add: default_fetcher_def)

lemma outcome_ok: "exchange_outcome get_ok loads_sample u k = Parsed (Some (JDict []))"
  by (simp add: exchange_outcome_def get_ok_def loads_sample_def)

theorem result_content_and_error_witness:
  "snd (fetch_single_url default_fetcher get_ok loads_sample ''http://a'') =
     Some (Inr \<lparr>url = ''http://a'', success = True, content = Some (JDict []), error = None\<rparr>) \<and>
   last_attempt default_fetcher get_ok loads_sample ''http://a'' 0 \<and>
   exchange_outcome get_ok loads_sample ''http://a'' 0 = Parsed (Some (JDict [])) \<and>
   (\<exists>k. last_attempt default_fetcher get_ok loads_sample ''http://a'' k \<and>
        exchange_outcome get_ok loads_sample ''http://a'' k = Parsed (Some (JDict []))) \<and>
   snd (fetch_single_url default_fetcher get_500 loads_sample ''http://a'') =
     Some (Inr \<lparr>url = ''http://a'', success = False, content = None, error = Some ''HTTP 500''\<rparr>)"
proof -
  have ok: "snd (fetch_single_url default_fetcher get_ok loads_sample ''http://a'') =
     Some (Inr \<lparr>url = ''http://a'', success = True, content = Some (JDict []), error = None\<rparr>)"
    by (simp add: fetch_ok)
  have bad: "snd (fetch_single_url default_fetcher get_500 loads_sample ''http://a'') =
     Some (Inr \<lparr>url = ''http://a'', success = False, content = None :: json option,
          error = Some ''HTTP 500''\<rparr>)"
    by (simp add: fetch_500)
  from result_content_and_error [OF ok] result_content_and_error [OF bad] ok bad
    last_attempt_ok [of "''http://a''"] outcome_ok [of "''http://a''" 0]
  show ?thesis by simp
qed

text \<open>
  C7, as the specification states it, fails: when the body of a 200 response is not
  JSON on every attempt, the reason begins with \<^verbatim>\<open>Invalid JSON: \<close>, which is none of the
  five forms that the claim lists.
\<close>

theorem invalid_json_reason_counterexample:
  "snd (fetch_single_url default_fetcher get_malformed loads_sample ''http://a'') =
     Some (Inr \<lparr>url = ''http://a'', success = False, content = None,
          error = Some ''Invalid JSON: Expecting value: line 1 column 1 (char 0)''\<rparr>) \<and>
   \<not> spec_error_form ''Invalid JSON: Expecting value: line 1 column 1 (char 0)''"
  by (simp add: fetch_malformed spec_error_form_def starts_with_def)

text \<open>
  C7, amended. With \<^verbatim>\<open>max_retries >= 0\<close>, the error of a failed \<^verbatim>\<open>FetchResult\<close> is
  decided by the outcome of the last permitted attempt, the one with index
  \<^verbatim>\<open>max_retries\<close>: \<^verbatim>\<open>HTTP <code>\<close> for a status other than 200, \<^verbatim>\<open>Timeout\<close> for a
  timeout, \<^verbatim>\<open>Client error: <detail>\<close> for a client error, \<^verbatim>\<open>Invalid JSON: <detail>\<close> for
  a body that \<^verbatim>\<open>json.loads\<close> rejects, and \<^verbatim>\<open>Unexpected error: <detail>\<close> for any other
  exception deriving from \<^verbatim>\<open>Exception\<close>.
\<close>

theorem terminal_error_reason:
  assumes "0 \<le> max_retries self"
    and "snd (fetch_single_url self g l u) = Some (Inr r)"
    and "\<not> success r"
  shows "(\<exists>c. exchange_outcome g l u (max_retries self) = HttpStatus c \<and>
              error r = Some (''HTTP '' @ str_int c)) \<or>
         (\<exists>m. exchange_outcome g l u (max_retries self) = Raised (TimeoutError m) \<and>
              error r = Some ''Timeout'') \<or>
         (\<exists>m. exchange_outcome g l u (max_retries self) = Raised (ClientError m) \<and>
              error r = Some (''Client error: '' @ m)) \<or>
         (\<exists>m. exchange_outcome g l u (max_retries self) = DecodeError m \<and>
              error r = Some (''Invalid JSON: '' @ m)) \<or>
         (\<exists>m. (exchange_outcome g l u (max_retries self) = Raised (JSONDecodeError m) \<or>
               exchange_outcome g l u (max_retries self) = Raised (Exception m)) \<and>
              error r = Some (''Unexpected error: '' @ m))"
proof -
  from fetch_single_url_Inr [OF assms(2)] assms(1) obtain k where
    step: "attempt_step self g l u k = Inr (Return r)" by auto
  have "\<not> (\<exists>v. exchange_outcome g l u k = Parsed v \<and> r = success_result u v)"
    using assms(3) by (auto simp: success_result_def)
  with attempt_step_Return [OF step] have
    "k = max_retries self \<and>
          ((\<exists>c. exchange_outcome g l u k = HttpStatus c \<and>
                r = failure_result u (''HTTP '' @ str_int c)) \<or>
           (\<exists>m. exchange_outcome g l u k = Raised (TimeoutError m) \<and>
                r = failure_result u ''Timeout'') \<or>
           (\<exists>m. exchange_outcome g l u k = Raised (ClientError m) \<and>
                r = failure_result u (''Client error: '' @ m)) \<or>
           (\<exists>m. exchange_outcome g l u k = DecodeError m \<and>
                r = failure_result u (''Invalid JSON: '' @ m)) \<or>
           (\<exists>m. (exchange_outcome g l u k = Raised (JSONDecodeError m) \<or>
                 exchange_outcome g l u k = Raised (Exception m)) \<and>
                r = failure_result u (''Unexpected error: '' @ m)))"
    by blast
  then show ?thesis
    by (elim conjE disjE exE) (simp_all add: failure_result_def)
qed

theorem terminal_error_reason_witness:
  "0 \<le> max_retries default_fetcher \<and>
   snd (fetch_single_url default_fetcher get_500 loads_sample ''http://a'') =
     Some (Inr \<lparr>url = ''http://a'', success = False, content = None, error = Some ''HTTP 500''\<rparr>) \<and>
   exchange_outcome get_500 loads_sample ''http://a'' (max_retries default_fetcher) = HttpStatus 500 \<and>
   ''HTTP 500'' = ''HTTP '' @ str_int 500"
proof -
  have mr: "0 \<le> max_retries default_fetcher" by (simp add: default_fetcher_def)
  have bad: "snd (fetch_single_url default_fetcher get_500 loads_sample ''http://a'') =
     Some (Inr \<lparr>url = ''http://a'', success = False, content = None :: json option,
          error = Some ''HTTP 500''\<rparr>)"
    by (simp add: fetch_500)
  have out: "exchange_outcome get_500 loads_sample ''http://a'' (max_retries default_fetcher) =
      (HttpStatus 500 :: json outcome)"
    by (simp add: exchange_outcome_def get_500_def)
  from terminal_error_reason [OF mr bad] mr bad out show ?thesis
    by (simp add: str_int_def)
qed

section \<open>Properties of the Orchestrator\<close>

lemma process_completed_counts:
  "process_completed w rs st f = (st', f', x) \<Longrightarrow>
   total_count st' = total_count st \<and>
   successful st \<le> successful st' \<and> failed st \<le> failed st' \<and>
   successful st' + failed st' \<le> successful st + failed st + int (length rs) \<and>
   (x = None \<longrightarrow> successful st' + failed st' = successful st + failed st + int (length rs))"
proof (induction w rs st f rule: process_completed.induct)
  case (1 w st f)
  then show ?case by simp
next
  case (2 w e rest st f)
  then show ?case by auto
next
  case (3 w result rest st f)
  show ?case
  proof (cases "success result \<and> content result \<noteq> None")
    case True
    show ?thesis
    proof (cases "w (url result) (content result)")
      case None
      with True "3.prems" have
        "process_completed w rest (st\<lparr>successful := successful st + 1\<rparr>)
           (f @ [(url result, content result)]) = (st', f', x)" by simp
      from "3.IH"(1) [OF True None this] show ?thesis by simp
    next
      case (Some e)
      with True "3.prems" have "st' = st" "f' = f" "x = Some e" by simp_all
      then show ?thesis by simp
    qed
  next
    case False
    with "3.prems" have
      "process_completed w rest (st\<lparr>failed := failed st + 1\<rparr>) f = (st', f', x)" by auto
    from "3.IH"(2) [OF False this] show ?thesis by simp
  qed
qed

lemma writable_Cons:
  "writable w (Inr r # rs) \<longleftrightarrow>
     (success r \<and> content r \<noteq> None \<longrightarrow> w (url r) (content r) = None) \<and> writable w rs"
  by (auto simp: writable_def)

lemma process_completed_sink:
  "process_completed w rs st f = (st', f', None) \<Longrightarrow>
   f' = f @ written rs \<and> (\<forall>x \<in> set rs. \<exists>r. x = Inr r) \<and> writable w rs \<and>
   successful st' = successful st + int (length (written rs))"
proof (induction w rs st f rule: process_completed.induct)
  case (1 w st f)
  then show ?case by (simp add: written_def writable_def)
next
  case (2 w e rest st f)
  then show ?case by simp
next
  case (3 w result rest st f)
  show ?case
  proof (cases "success result \<and> content result \<noteq> None")
    case True
    show ?thesis
    proof (cases "w (url result) (content result)")
      case None
      with True "3.prems" have
        "process_completed w rest (st\<lparr>successful := successful st + 1\<rparr>)
           (f @ [(url result, content result)]) = (st', f', None)" by simp
      from "3.IH"(1) [OF True None this] True None show ?thesis
        by (simp add: written_def writable_Cons)
    next
      case (Some e)
      with True "3.prems" show ?thesis by simp
    qed
  next
    case False
    with "3.prems" have
      "process_completed w rest (st\<lparr>failed := failed st + 1\<rparr>) f = (st', f', None)" by auto
    from "3.IH"(2) [OF False this] False show ?thesis
      by (auto simp: written_def writable_Cons)
  qed
qed




lemma length_completion_order: "completion_order n order \<Longrightarrow> length order = n"
  using distinct_card [of order] by (simp add: completion_order_def)

lemma length_tasks_of: "length (tasks_of self net l urls) = length urls"
  by (simp add: tasks_of_def)

lemma nth_tasks_of:
  "i < length urls \<Longrightarrow> tasks_of self net l urls ! i = fetch_single_url self (net i) l (urls ! i)"
  by (simp add: tasks_of_def nth_enumerate_eq)

lemma finished_elem: "x \<in> set (finished xs) \<longleftrightarrow> Some x \<in> set xs"
  by (induction xs rule: finished.induct) auto

lemma length_finished: "length (finished xs) \<le> length xs"
  by (induction xs rule: finished.induct) auto

lemma length_finished_all: "\<not> list_ex Option.is_none xs \<Longrightarrow> length (finished xs) = length xs"
  by (induction xs rule: finished.induct) (auto simp: Option.is_none_def)

lemma length_outcomes:
  "completion_order (length urls) order \<Longrightarrow> length (outcomes self net l order urls) = length urls"
  by (simp add: outcomes_def length_completion_order)

lemma length_completed:
  "completion_order (length urls) order \<Longrightarrow> length (completed self net l order urls) \<le> length urls"
  using length_finished [of "outcomes self net l order urls"]
  by (simp add: completed_def length_outcomes)

lemma outcomes_elem:
  assumes "completion_order (length urls) order" and "x \<in> set (outcomes self net l order urls)"
  shows "\<exists>i < length urls. x = snd (fetch_single_url self (net i) l (urls ! i))"
proof -
  from assms(2) obtain i where i: "i \<in> set order" "x = snd (tasks_of self net l urls ! i)"
    by (auto simp: outcomes_def)
  from i(1) assms(1) have "i < length urls" by (simp add: completion_order_def)
  with i(2) show ?thesis by (auto simp: nth_tasks_of)
qed

lemma completed_elem:
  assumes "completion_order (length urls) order" and "x \<in> set (completed self net l order urls)"
  shows "\<exists>i < length urls. snd (fetch_single_url self (net i) l (urls ! i)) = Some x"
proof -
  from assms(2) have "Some x \<in> set (outcomes self net l order urls)"
    by (simp add: completed_def finished_elem)
  from outcomes_elem [OF assms(1) this] show ?thesis by auto
qed





lemma fetch_urls_Inr:
  "snd (fetch_urls self w net l order urls) = Some (Inr st) \<Longrightarrow>
   process_completed w (completed self net l order urls) (initial_stats urls) [] =
     (st, fst (fetch_urls self w net l order urls), None) \<and>
   \<not> list_ex Option.is_none (outcomes self net l order urls)"
  by (auto simp: fetch_urls_def split: prod.splits option.splits if_splits)


lemma fetch_urls_Inr_length:
  assumes "completion_order (length urls) order"
    and "snd (fetch_urls self w net l order urls) = Some (Inr st)"
  shows "length (completed self net l order urls) = length urls"
  using fetch_urls_Inr [OF assms(2)] length_outcomes [OF assms(1), of self net l]
  by (simp add: completed_def length_finished_all)






section \<open>The sample runs of the Orchestrator, evaluated\<close>

lemma length_urls_scenario: "length urls_scenario = 5"
  by (simp add: urls_scenario_def)

lemma completion_order_scenario: "completion_order (length urls_scenario) order_scenario"
  by (auto simp: completion_order_def urls_scenario_def order_scenario_def)

lemma outcomes_scenario:
  "outcomes default_fetcher net_scenario loads_sample order_scenario urls_scenario =
     [Some (Inr \<lparr>url = ''http://e'', success = True, content = Some (JDict []), error = None\<rparr>),
      Some (Inr \<lparr>url = ''http://a'', success = True, content = Some (JDict []), error = None\<rparr>),
      Some (Inr \<lparr>url = ''http://d'', success = False, content = None, error = Some ''Timeout''\<rparr>),
      Some (Inr \<lparr>url = ''http://b'', success = False, content = None, error = Some ''HTTP 500''\<rparr>),
      Some (Inr \<lparr>url = ''http://c'', success = True, content = Some (JDict []), error = None\<rparr>)]"
  by (simp add: outcomes_def tasks_of_def urls_scenario_def order_scenario_def net_scenario_def
      fetch_ok fetch_500 fetch_timeout)

lemma completed_scenario:
  "completed default_fetcher net_scenario loads_sample order_scenario urls_scenario =
     [Inr \<lparr>url = ''http://e'', success = True, content = Some (JDict []), error = None\<rparr>,
      Inr \<lparr>url = ''http://a'', success = True, content = Some (JDict []), error = None\<rparr>,
      Inr \<lparr>url = ''http://d'', success = False, content = None, error = Some ''Timeout''\<rparr>,
      Inr \<lparr>url = ''http://b'', success = False, content = None, error = Some ''HTTP 500''\<rparr>,
      Inr \<lparr>url = ''http://c'', success = True, content = Some (JDict []), error = None\<rparr>]"
  by (simp add: completed_def outcomes_scenario)


lemma fetch_urls_scenario:
  "fetch_urls default_fetcher write_sample net_scenario loads_sample order_scenario urls_scenario =
     ([(''http://e'', Some (JDict [])), (''http://a'', Some (JDict [])),
       (''http://c'', Some (JDict []))],
      Some (Inr \<lparr>total_count = 5, successful = 3, failed = 2\<rparr>))"
  by (simp add: fetch_urls_def completed_scenario outcomes_scenario initial_stats_def
      length_urls_scenario Option.is_none_def write_sample_def)

lemma run_after_scenario:
  "run_after default_fetcher write_sample net_scenario loads_sample order_scenario urls_scenario 3 =
     (\<lparr>total_count = 5, successful = 2, failed = 1\<rparr>,
      [(''http://e'', Some (JDict [])), (''http://a'', Some (JDict []))], None)"
  by (simp add: run_after_def completed_scenario initial_stats_def length_urls_scenario
      write_sample_def)


lemma outcomes_null:
  "outcomes default_fetcher net_null loads_sample [0] [''http://a''] =
     [Some (Inr \<lparr>url = ''http://a'', success = True, content = None, error = None\<rparr>)]"
  by (simp add: outcomes_def tasks_of_def net_null_def fetch_null)

lemma completed_null:
  "completed default_fetcher net_null loads_sample [0] [''http://a''] =
     [Inr \<lparr>url = ''http://a'', success = True, content = None, error = None\<rparr>]"
  by (simp add: completed_def outcomes_null)

lemma fetch_urls_null:
  "fetch_urls default_fetcher write_sample net_null loads_sample [0] [''http://a''] =
     ([], Some (Inr \<lparr>total_count = 1, successful = 0, failed = 1\<rparr>))"
  by (simp add: fetch_urls_def completed_null outcomes_null initial_stats_def Option.is_none_def)









section \<open>Claims about a run\<close>

text \<open>
  C3. For every run over an input list, in whatever order the tasks complete and
  whatever the writes do: after any number \<open>k\<close> of completions the statistics have
  \<^verbatim>\<open>total == len(urls)\<close> and \<^verbatim>\<open>successful + failed <= total\<close>; and the statistics that the
  run returns have \<^verbatim>\<open>total == len(urls)\<close> and \<^verbatim>\<open>successful + failed == total\<close>.
\<close>

theorem statistics_total:
  assumes "completion_order (length urls) order"
  shows "(\<forall>k. total_count (fst (run_after self w net l order urls k)) = int (length urls) \<and>
              successful (fst (run_after self w net l order urls k)) +
                failed (fst (run_after self w net l order urls k))
                \<le> total_count (fst (run_after self w net l order urls k))) \<and>
         (\<forall>st. snd (fetch_urls self w net l order urls) = Some (Inr st) \<longrightarrow>
              total_count st = int (length urls) \<and> successful st + failed st = total_count st)"
proof (intro conjI allI impI)
  fix k
  obtain st f x where run: "run_after self w net l order urls k = (st, f, x)"
    by (metis prod_cases3)
  then have pc: "process_completed w (take k (completed self net l order urls))
      (initial_stats urls) [] = (st, f, x)" by (simp add: run_after_def)
  have len: "length (take k (completed self net l order urls)) \<le> length urls"
    using length_completed [OF assms, of self net l] by simp
  from process_completed_counts [OF pc] len
  have "total_count st = int (length urls)" "successful st + failed st \<le> total_count st"
    by (simp_all add: initial_stats_def)
  with run show "total_count (fst (run_after self w net l order urls k)) = int (length urls)"
    and "successful (fst (run_after self w net l order urls k)) +
           failed (fst (run_after self w net l order urls k))
           \<le> total_count (fst (run_after self w net l order urls k))" by simp_all
next
  fix st assume ret: "snd (fetch_urls self w net l order urls) = Some (Inr st)"
  from process_completed_counts [OF fetch_urls_Inr [OF ret, THEN conjunct1]]
    fetch_urls_Inr_length [OF assms ret]
  show "total_count st = int (length urls)" and "successful st + failed st = total_count st"
    by (simp_all add: initial_stats_def)
qed

theorem statistics_total_witness:
  "completion_order (length urls_scenario) order_scenario \<and>
   total_count (fst (run_after default_fetcher write_sample net_scenario loads_sample
       order_scenario urls_scenario 3)) = int (length urls_scenario) \<and>
   run_after default_fetcher write_sample net_scenario loads_sample order_scenario urls_scenario 3 =
     (\<lparr>total_count = 5, successful = 2, failed = 1\<rparr>,
      [(''http://e'', Some (JDict [])), (''http://a'', Some (JDict []))], None) \<and>
   snd (fetch_urls default_fetcher write_sample net_scenario loads_sample order_scenario
       urls_scenario) = Some (Inr \<lparr>total_count = 5, successful = 3, failed = 2\<rparr>) \<and>
   total_count \<lparr>total_count = 5, successful = 3, failed = 2\<rparr> = int (length urls_scenario)"
  using statistics_total [OF completion_order_scenario,
      of default_fetcher write_sample net_scenario loads_sample]
    completion_order_scenario
  by (simp add: fetch_urls_scenario run_after_scenario length_urls_scenario)

lemma returned_elem: "r \<in> set (returned rs) \<Longrightarrow> Inr r \<in> set rs"
  by (induction rs rule: returned.induct) auto

text \<open>
  C4, as the specification states it, fails: a task whose body is the JSON text
  \<^verbatim>\<open>null\<close> completes with \<^verbatim>\<open>success == True\<close>, and the run writes no record for it and
  counts it as failed.
\<close>

theorem null_body_not_written_counterexample:
  "completed default_fetcher net_null loads_sample [0] [''http://a''] =
     [Inr \<lparr>url = ''http://a'', success = True, content = None, error = None\<rparr>] \<and>
   fetch_urls default_fetcher write_sample net_null loads_sample [0] [''http://a''] =
     ([], Some (Inr \<lparr>total_count = 1, successful = 0, failed = 1\<rparr>)) \<and>
   fst (fetch_urls default_fetcher write_sample net_null loads_sample [0] [''http://a'']) \<noteq>
     spec_sink (completed default_fetcher net_null loads_sample [0] [''http://a''])"
  by (simp add: completed_null fetch_urls_null spec_sink_def)

text \<open>
  C4, amended. For every run that returns, the sink holds, in the order of completion,
  exactly one record \<^verbatim>\<open>{url, content}\<close> for each \<^verbatim>\<open>FetchResult\<close> with
  \<^verbatim>\<open>success == True\<close> and a content other than \<^verbatim>\<open>None\<close>, and no other record; the
  statistics count these records as \<^verbatim>\<open>successful\<close>; and every record is that of a task
  of the run: its URL is the URL of the task, and its content is the content of the result
  of the task, which is the value that \<^verbatim>\<open>json.loads\<close> returned on the body of the 200
  response of the last attempt that the task made.
\<close>

theorem sink_records:
  assumes "completion_order (length urls) order"
    and "snd (fetch_urls self w net l order urls) = Some (Inr st)"
  shows "fst (fetch_urls self w net l order urls) = written (completed self net l order urls) \<and>
         successful st = int (length (fst (fetch_urls self w net l order urls))) \<and>
         (\<forall>rec \<in> set (fst (fetch_urls self w net l order urls)).
            snd rec \<noteq> None \<and>
            (\<exists>i < length urls. \<exists>r.
               snd (fetch_single_url self (net i) l (urls ! i)) = Some (Inr r) \<and> success r \<and>
               rec = (urls ! i, content r) \<and>
               (\<exists>k. last_attempt self (net i) l (urls ! i) k \<and>
                    exchange_outcome (net i) l (urls ! i) k = Parsed (snd rec))))"
proof -
  let ?rs = "completed self net l order urls"
  note pc = fetch_urls_Inr [OF assms(2), THEN conjunct1]
  from process_completed_sink [OF pc]
  have sink: "fst (fetch_urls self w net l order urls) = written ?rs"
    and succ: "successful st = int (length (written ?rs))"
    by (simp_all add: initial_stats_def)
  have recs: "\<forall>rec \<in> set (written ?rs).
            snd rec \<noteq> None \<and>
            (\<exists>i < length urls. \<exists>r.
               snd (fetch_single_url self (net i) l (urls ! i)) = Some (Inr r) \<and> success r \<and>
               rec = (urls ! i, content r) \<and>
               (\<exists>k. last_attempt self (net i) l (urls ! i) k \<and>
                    exchange_outcome (net i) l (urls ! i) k = Parsed (snd rec)))"
  proof
    fix rec assume "rec \<in> set (written ?rs)"
    then obtain r where r: "r \<in> set (returned ?rs)" "success r" "content r \<noteq> None"
      "rec = (url r, content r)" by (auto simp: written_def)
    from returned_elem [OF r(1)] completed_elem [OF assms(1)] obtain i where
      i: "i < length urls" "snd (fetch_single_url self (net i) l (urls ! i)) = Some (Inr r)"
      by metis
    from success_last_attempt [OF i(2) r(2)] obtain k where
      k: "url r = urls ! i" "last_attempt self (net i) l (urls ! i) k"
         "exchange_outcome (net i) l (urls ! i) k = Parsed (content r)" by blast
    have "\<exists>i < length urls. \<exists>r.
               snd (fetch_single_url self (net i) l (urls ! i)) = Some (Inr r) \<and> success r \<and>
               rec = (urls ! i, content r) \<and>
               (\<exists>k. last_attempt self (net i) l (urls ! i) k \<and>
                    exchange_outcome (net i) l (urls ! i) k = Parsed (snd rec))"
      using i r(2,4) k by (intro exI [of _ i] conjI exI [of _ r] exI [of _ k]) simp_all
    with r(3,4) show "snd rec \<noteq> None \<and>
            (\<exists>i < length urls. \<exists>r.
               snd (fetch_single_url self (net i) l (urls ! i)) = Some (Inr r) \<and> success r \<and>
               rec = (urls ! i, content r) \<and>
               (\<exists>k. last_attempt self (net i) l (urls ! i) k \<and>
                    exchange_outcome (net i) l (urls ! i) k = Parsed (snd rec)))"
      by simp
  qed
  from sink succ recs show ?thesis by simp
qed

theorem sink_records_witness:
  "completion_order (length urls_scenario) order_scenario \<and>
   snd (fetch_urls default_fetcher write_sample net_scenario loads_sample order_scenario
       urls_scenario) = Some (Inr \<lparr>total_count = 5, successful = 3, failed = 2\<rparr>) \<and>
   fst (fetch_urls default_fetcher write_sample net_scenario loads_sample order_scenario
       urls_scenario) =
     written (completed default_fetcher net_scenario loads_sample order_scenario urls_scenario) \<and>
   fst (fetch_urls default_fetcher write_sample net_scenario loads_sample order_scenario
       urls_scenario) =
     [(''http://e'', Some (JDict [])), (''http://a'', Some (JDict [])),
      (''http://c'', Some (JDict []))] \<and>
   (\<exists>i < length urls_scenario. \<exists>r.
      snd (fetch_single_url default_fetcher (net_scenario i) loads_sample (urls_scenario ! i)) =
        Some (Inr r) \<and> success r \<and>
      (''http://e'', Some (JDict [])) = (urls_scenario ! i, content r) \<and>
      (\<exists>k. last_attempt default_fetcher (net_scenario i) loads_sample (urls_scenario ! i) k \<and>
           exchange_outcome (net_scenario i) loads_sample (urls_scenario ! i) k =
             Parsed (Some (JDict []))))"
proof -
  have ret: "snd (fetch_urls default_fetcher write_sample net_scenario loads_sample
      order_scenario urls_scenario) = Some (Inr \<lparr>total_count = 5, successful = 3, failed = 2\<rparr>)"
    by (simp add: fetch_urls_scenario)
  from sink_records [OF completion_order_scenario ret] completion_order_scenario ret
  show ?thesis by (simp add: fetch_urls_scenario)
qed



text \<open>
  C10, as the specification states it, fails for the entry point
  \<^verbatim>\<open>fetch_urls_from_file\<close>: with no URL it returns the empty dict, which has no key
  \<^verbatim>\<open>total\<close>, \<^verbatim>\<open>successful\<close> or \<^verbatim>\<open>failed\<close>.
\<close>

theorem empty_dict_counterexample:
  "fetch_urls_from_file (Inr []) 5 2 write_sample net_null loads_sample [] =
     ([], Some (Inr Map.empty)) \<and>
   \<not> spec_empty_statistics Map.empty"
  by (simp add: fetch_urls_from_file_def spec_empty_statistics_def)

text \<open>
  C10, amended. For an empty input URL list, \<^verbatim>\<open>URLFetcher.fetch_urls\<close> returns
  statistics with \<^verbatim>\<open>total == 0\<close>, \<^verbatim>\<open>successful == 0\<close> and \<^verbatim>\<open>failed == 0\<close> and writes no
  record to the sink; \<^verbatim>\<open>fetch_urls_from_file\<close> returns at once the empty dict \<^verbatim>\<open>{}\<close>,
  without a run, and writes no record either.
\<close>

theorem empty_input:
  assumes "completion_order 0 order"
  shows "fetch_urls self w net l order [] =
           ([], Some (Inr \<lparr>total_count = 0, successful = 0, failed = 0\<rparr>)) \<and>
         fetch_urls_from_file (Inr []) mc mr w net l order = ([], Some (Inr Map.empty))"
proof -
  from assms have "order = []" by (simp add: completion_order_def)
  then show ?thesis
    by (simp add: fetch_urls_def completed_def outcomes_def initial_stats_def
        fetch_urls_from_file_def)
qed

theorem empty_input_witness:
  "completion_order 0 [] \<and>
   fetch_urls default_fetcher write_sample net_null loads_sample [] [] =
     ([], Some (Inr \<lparr>total_count = 0, successful = 0, failed = 0\<rparr>)) \<and>
   fetch_urls_from_file (Inr []) 5 2 write_sample net_null loads_sample [] =
     ([], Some (Inr Map.empty))"
proof -
  have ord: "completion_order 0 []" by (simp add: completion_order_def)
  from empty_input [OF ord, of default_fetcher write_sample net_null loads_sample 5 2] ord
  show ?thesis by simp
qed

section \<open>Properties of the interleaving\<close>

lemma run_phase_append:
  "run_phase p (xs @ ys) = (case run_phase p xs of None \<Rightarrow> None | Some q \<Rightarrow> run_phase q ys)"
  by (induction xs arbitrary: p) (simp_all split: option.splits)

lemma run_phase_attempt_events: "run_phase Idle (attempt_events u a @ es) = run_phase Idle es"
  by (simp add: attempt_events_def)

lemma run_phase_retry_events: "run_phase Idle (retry_events u a n @ es) = run_phase Idle es"
  by (induction n arbitrary: a) (simp_all add: run_phase_attempt_events)

lemma trace_disciplined: "run_phase Idle (fst (fetch_single_url self g l u)) = Some Idle"
proof (cases "0 \<le> max_retries self")
  case mr: True
  show ?thesis
  proof (cases "1 \<le> max_concurrent self")
    case True
    from fetch_loop_shape [OF True, of 0 g l u] mr obtain n where
      "fst (fetch_loop self g l u 0) = retry_events u 0 n @ attempt_events u (int n)" by auto
    then show ?thesis
      using run_phase_attempt_events [of u "int n" "[]"]
      by (simp add: fst_fetch_single_url run_phase_retry_events)
  next
    case False
    with mr show ?thesis by (simp add: fetch_single_url_no_slot)
  qed
next
  case False
  then show ?thesis by (simp add: fst_fetch_single_url fetch_loop_below_budget)
qed

lemma held_snoc:
  "held (h @ [e]) = held h + (if e = Acquire then 1 else 0) - (if e = Release then 1 else 0)"
  by (simp add: held_def)

lemma next_phase_cases:
  assumes "next_phase q e = Some p"
  shows "(q = Idle \<and> e = Acquire \<and> p = Holding) \<or>
         (q = Holding \<and> (\<exists>u k. e = GetBegin u k) \<and> p = InFlight) \<or>
         (q = InFlight \<and> e = GetEnd \<and> p = Finishing) \<or>
         (q = Finishing \<and> e = Release \<and> p = Idle) \<or>
         (q = Idle \<and> (\<exists>d. e = Sleep d) \<and> p = Idle)"
  using assms by (cases q; cases e) simp_all

lemma phase_facts:
  "run_phase Idle h = Some p \<Longrightarrow>
   held h = (if p = Idle then 0 else 1) \<and>
   (in_exchange h \<longrightarrow> p = InFlight) \<and> (in_backoff h \<longrightarrow> p = Idle)"
proof (induction h arbitrary: p rule: rev_induct)
  case Nil
  then show ?case by (simp add: held_def in_exchange_def in_backoff_def)
next
  case (snoc e h)
  from snoc.prems obtain q where q: "run_phase Idle h = Some q" "next_phase q e = Some p"
    by (auto simp: run_phase_append split: option.splits)
  from snoc.IH [OF q(1)] have hq: "held h = (if q = Idle then 0 else 1)" by simp
  from next_phase_cases [OF q(2)] hq show ?case
    by (auto simp: held_snoc in_exchange_def in_backoff_def)
qed

lemma sum_list_map_update:
  fixes f :: "'a \<Rightarrow> int"
  shows "i < length xs \<Longrightarrow>
         sum_list (map f (xs[i := y])) = sum_list (map f xs) - f (xs ! i) + f y"
proof (induction xs arbitrary: i)
  case Nil
  then show ?case by simp
next
  case (Cons x xs)
  then show ?case by (cases i) simp_all
qed

lemma list_all_update:
  "list_all P xs \<Longrightarrow> P y \<Longrightarrow> list_all P (xs[i := y])"
  using set_update_subset_insert [of xs i y] by (auto simp: list_all_iff)

lemma step_task_inv:
  assumes inv: "sched_inv cap s" and step: "step_task i s = Some s'"
  shows "sched_inv cap s'"
proof -
  from step have i: "i < length (progress s)" by (simp add: step_task_def split: if_splits)
  obtain h rest where hr: "progress s ! i = (h, rest)" by (cases "progress s ! i")
  with step i obtain e todo where rest: "rest = e # todo"
    by (cases rest) (simp_all add: step_task_def)
  from inv i hr rest have ok: "run_phase Idle (h @ e # todo) = Some Idle"
    by (auto simp: sched_inv_def list_all_length)
  have prog: "progress s' = (progress s)[i := (h @ [e], todo)]"
    using step i hr rest by (cases e) (auto simp: step_task_def split: if_splits)
  have all: "list_all (\<lambda>t. run_phase Idle (fst t @ snd t) = Some Idle) (progress s')"
    unfolding prog using inv ok by (intro list_all_update) (simp_all add: sched_inv_def)
  have sum: "sum_list (map (\<lambda>t. held (fst t)) (progress s')) =
      sum_list (map (\<lambda>t. held (fst t)) (progress s)) +
        (if e = Acquire then 1 else 0) - (if e = Release then 1 else 0)"
    unfolding prog using i hr by (simp add: sum_list_map_update held_snoc)
  have sem: "int (sem_value s') =
      int (sem_value s) - (if e = Acquire then 1 else 0) + (if e = Release then 1 else 0)"
    using step i hr rest by (cases e) (auto simp: step_task_def split: if_splits)
  from inv sum sem all show ?thesis by (simp add: sched_inv_def)
qed

lemma run_schedule_inv:
  "sched_inv cap s \<Longrightarrow> run_schedule sch s = Some s' \<Longrightarrow> sched_inv cap s'"
proof (induction sch arbitrary: s)
  case Nil
  then show ?case by simp
next
  case (Cons i sch)
  from Cons.prems(2) obtain s1 where s1: "step_task i s = Some s1" "run_schedule sch s1 = Some s'"
    by (auto split: option.splits)
  from Cons.IH [OF step_task_inv [OF Cons.prems(1) s1(1)] s1(2)] show ?case .
qed

lemma start_inv:
  assumes "0 \<le> max_concurrent self"
  shows "sched_inv (max_concurrent self) (start self net l urls)"
proof -
  have "sum_list (map (\<lambda>t. held (fst t)) (progress (start self net l urls))) = 0"
    by (simp add: start_def held_def comp_def)
  moreover have "list_all (\<lambda>t. run_phase Idle (fst t @ snd t) = Some Idle)
      (progress (start self net l urls))"
    by (auto simp: start_def list_all_iff tasks_of_def trace_disciplined)
  ultimately show ?thesis using assms by (simp add: sched_inv_def start_def)
qed

lemma task_phase:
  assumes "sched_inv cap s" and "t \<in> set (progress s)"
  shows "\<exists>p. run_phase Idle (fst t) = Some p"
proof -
  from assms have "run_phase Idle (fst t @ snd t) = Some Idle"
    by (auto simp: sched_inv_def list_all_iff)
  then show ?thesis by (auto simp: run_phase_append split: option.splits)
qed

lemma length_filter_sum:
  "int (length (filter P xs)) = sum_list (map (\<lambda>t. if P t then 1 else 0) xs)"
  by (induction xs) simp_all

lemma active_le_held:
  assumes "sched_inv cap s"
  shows "int (active_exchanges s) \<le> sum_list (map (\<lambda>t. held (fst t)) (progress s))"
proof -
  have "sum_list (map (\<lambda>t. if in_exchange (fst t) then 1 else 0) (progress s))
        \<le> sum_list (map (\<lambda>t. held (fst t)) (progress s))"
  proof (rule sum_list_mono)
    fix t assume "t \<in> set (progress s)"
    from task_phase [OF assms this] obtain p where "run_phase Idle (fst t) = Some p" by blast
    from phase_facts [OF this]
    show "(if in_exchange (fst t) then 1 else 0) \<le> held (fst t)" by auto
  qed
  then show ?thesis by (simp add: active_exchanges_def length_filter_sum)
qed

lemma sem_bound:
  assumes "sched_inv cap s"
  shows "int (active_exchanges s) \<le> cap"
proof -
  from assms have "int (sem_value s) + sum_list (map (\<lambda>t. held (fst t)) (progress s)) = cap"
    by (simp add: sched_inv_def)
  with active_le_held [OF assms] show ?thesis by simp
qed

section \<open>No task waits for ever\<close>

lemma step_task_enabled:
  assumes "i < length (progress s)" and "progress s ! i = (h, e # todo)"
    and "e = Acquire \<longrightarrow> 0 < sem_value s"
  shows "\<exists>s'. step_task i s = Some s'"
  using assms by (cases e) (auto simp: step_task_def)

lemma holder_can_step:
  assumes ok: "run_phase Idle (h @ todo) = Some Idle" and held: "held h \<noteq> 0"
  shows "\<exists>e rest. todo = e # rest \<and> e \<noteq> Acquire"
proof -
  from ok obtain p where p: "run_phase Idle h = Some p" "run_phase p todo = Some Idle"
    by (auto simp: run_phase_append split: option.splits)
  from phase_facts [OF p(1)] held have "p \<noteq> Idle" by auto
  with p(2) show ?thesis
    by (cases todo; cases p) (auto split: option.splits)
qed

lemma sum_list_pos_elem:
  fixes f :: "'a \<Rightarrow> int"
  shows "sum_list (map f xs) \<noteq> 0 \<Longrightarrow> \<exists>x \<in> set xs. f x \<noteq> 0"
  by (induction xs) auto

text \<open>With at least one slot, a run in which a task has something left to do can go on.\<close>

lemma no_deadlock:
  assumes inv: "sched_inv cap s" and cap: "1 \<le> cap"
    and todo: "\<exists>t \<in> set (progress s). snd t \<noteq> []"
  shows "\<exists>i s'. step_task i s = Some s'"
proof (cases "0 < sem_value s")
  case True
  from todo obtain t where t: "t \<in> set (progress s)" "snd t \<noteq> []" by blast
  then obtain i where i: "i < length (progress s)" "progress s ! i = t"
    by (auto simp: in_set_conv_nth)
  obtain h e rest where "t = (h, e # rest)" using t(2) by (cases t; cases "snd t") auto
  with i True step_task_enabled [of i s h e rest] show ?thesis by auto
next
  case False
  with inv cap have "sum_list (map (\<lambda>t. held (fst t)) (progress s)) \<noteq> 0"
    by (simp add: sched_inv_def)
  from sum_list_pos_elem [OF this] obtain t where t: "t \<in> set (progress s)" "held (fst t) \<noteq> 0"
    by blast
  from inv t(1) have "run_phase Idle (fst t @ snd t) = Some Idle"
    by (auto simp: sched_inv_def list_all_iff)
  from holder_can_step [OF this t(2)] obtain e rest where e: "snd t = e # rest" "e \<noteq> Acquire"
    by blast
  from t(1) obtain i where i: "i < length (progress s)" "progress s ! i = t"
    by (auto simp: in_set_conv_nth)
  from e have "t = (fst t, e # rest)" by (cases t) simp
  with i e(2) step_task_enabled [of i s "fst t" e rest] show ?thesis by auto
qed

lemma sum_list_map_update_nat:
  fixes f :: "'a \<Rightarrow> nat"
  shows "i < length xs \<Longrightarrow>
         sum_list (map f (xs[i := y])) + f (xs ! i) = sum_list (map f xs) + f y"
proof (induction xs arbitrary: i)
  case Nil
  then show ?case by simp
next
  case (Cons x xs)
  then show ?case by (cases i) (simp_all add: ac_simps)
qed

lemma step_task_remaining:
  assumes "step_task i s = Some s'"
  shows "Suc (remaining s') = remaining s"
proof -
  from assms have i: "i < length (progress s)" by (simp add: step_task_def split: if_splits)
  obtain h rest where hr: "progress s ! i = (h, rest)" by (cases "progress s ! i")
  with assms i obtain e todo where rest: "rest = e # todo"
    by (cases rest) (simp_all add: step_task_def)
  have prog: "progress s' = (progress s)[i := (h @ [e], todo)]"
    using assms i hr rest by (cases e) (auto simp: step_task_def split: if_splits)
  from sum_list_map_update_nat [OF i, of "\<lambda>t. length (snd t)" "(h @ [e], todo)"] hr rest
  show ?thesis by (simp add: remaining_def prog)
qed

lemma remaining_zero: "remaining s = 0 \<longleftrightarrow> (\<forall>t \<in> set (progress s). snd t = [])"
  by (auto simp: remaining_def)

text \<open>
  With at least one slot, every state of a run can be continued to one in which every
  task has done all its events: no task waits for a slot for ever.
\<close>

lemma run_completes:
  assumes "sched_inv cap s" and "1 \<le> cap"
  shows "\<exists>sch s'. run_schedule sch s = Some s' \<and> (\<forall>t \<in> set (progress s'). snd t = [])"
  using assms(1)
proof (induction "remaining s" arbitrary: s)
  case 0
  then have "\<forall>t \<in> set (progress s). snd t = []" by (simp add: remaining_zero)
  then show ?case by (intro exI [of _ "[]"] exI [of _ s]) simp
next
  case (Suc n)
  from Suc.hyps(2) have "\<exists>t \<in> set (progress s). snd t \<noteq> []"
    using remaining_zero [of s] by auto
  from no_deadlock [OF Suc.prems assms(2) this] obtain i s1 where
    step: "step_task i s = Some s1" by blast
  from step_task_remaining [OF step] Suc.hyps(2) have "n = remaining s1" by simp
  from Suc.hyps(1) [OF this step_task_inv [OF Suc.prems step]] obtain sch s' where
    "run_schedule sch s1 = Some s'" "\<forall>t \<in> set (progress s'). snd t = []" by blast
  with step show ?case by (intro exI [of _ "i # sch"] exI [of _ s']) simp
qed

lemma reachable_can_finish:
  assumes "1 \<le> max_concurrent self"
    and "run_schedule sch (start self net l urls) = Some s"
  shows "\<exists>sch' s'. run_schedule sch' s = Some s' \<and> (\<forall>t \<in> set (progress s'). snd t = [])"
proof -
  from assms(1) have "0 \<le> max_concurrent self" by simp
  from run_schedule_inv [OF start_inv [OF this] assms(2)] assms(1) show ?thesis
    by (rule run_completes)
qed

section \<open>A sample interleaving, evaluated\<close>

lemma start_pair:
  "start single_slot_fetcher net_pair loads_sample urls_pair =
     \<lparr>sem_value = 1,
      progress =
        [([], [Acquire, GetBegin ''http://a'' 0, GetEnd, Release, Sleep 1,
               Acquire, GetBegin ''http://a'' 1, GetEnd, Release]),
         ([], [Acquire, GetBegin ''http://b'' 0, GetEnd, Release])]\<rparr>"
  by (simp add: start_def tasks_of_def urls_pair_def net_pair_def single_slot_fetcher_def
      fetch_single_url_def fetch_loop.simps attempt_step_def try_body_def give_up_def
      attempt_events_def success_result_def failure_result_def str_int_def loads_sample_def
      get_ok_def get_500_def)

lemma run_pair:
  "run_schedule schedule_pair (start single_slot_fetcher net_pair loads_sample urls_pair) =
     Some \<lparr>sem_value = 0,
      progress =
        [([Acquire, GetBegin ''http://a'' 0, GetEnd, Release, Sleep 1],
          [Acquire, GetBegin ''http://a'' 1, GetEnd, Release]),
         ([Acquire, GetBegin ''http://b'' 0], [GetEnd, Release])]\<rparr>"
  by (simp add: start_pair schedule_pair_def step_task_def)

text \<open>With one slot, a second task cannot begin while the first is inside its exchange.\<close>

lemma run_blocked:
  "run_schedule schedule_blocked (start single_slot_fetcher net_pair loads_sample urls_pair) = None"
  by (simp add: start_pair schedule_blocked_def step_task_def)

section \<open>The claim about the Concurrency Limiter\<close>

text \<open>
  C8. With \<^verbatim>\<open>max_concurrent >= 0\<close>, in every state that an interleaving of the tasks of
  a run reaches: at most \<^verbatim>\<open>max_concurrent\<close> tasks are inside a Transport exchange; the
  free slots and the slots held add up to \<^verbatim>\<open>max_concurrent\<close>; a task inside an exchange
  holds one slot and a task in its backoff sleep holds none. And the events of every
  Fetch Operation follow the slot discipline: acquire, begin of the exchange, end of the
  exchange, release, and only then a sleep.
\<close>

theorem exchanges_within_capacity:
  assumes "0 \<le> max_concurrent self"
    and "run_schedule sch (start self net l urls) = Some s"
  shows "int (active_exchanges s) \<le> max_concurrent self \<and>
         int (sem_value s) + sum_list (map (\<lambda>t. held (fst t)) (progress s)) = max_concurrent self \<and>
         (\<forall>t \<in> set (progress s).
            (in_exchange (fst t) \<longrightarrow> held (fst t) = 1) \<and>
            (in_backoff (fst t) \<longrightarrow> held (fst t) = 0)) \<and>
         run_phase Idle (fst (fetch_single_url self g l u)) = Some Idle"
proof -
  from run_schedule_inv [OF start_inv [OF assms(1)] assms(2)]
  have inv: "sched_inv (max_concurrent self) s" .
  have held: "\<forall>t \<in> set (progress s).
            (in_exchange (fst t) \<longrightarrow> held (fst t) = 1) \<and>
            (in_backoff (fst t) \<longrightarrow> held (fst t) = 0)"
  proof
    fix t assume "t \<in> set (progress s)"
    from task_phase [OF inv this] obtain p where "run_phase Idle (fst t) = Some p" by blast
    from phase_facts [OF this]
    show "(in_exchange (fst t) \<longrightarrow> held (fst t) = 1) \<and>
          (in_backoff (fst t) \<longrightarrow> held (fst t) = 0)" by auto
  qed
  from inv have "int (sem_value s) + sum_list (map (\<lambda>t. held (fst t)) (progress s)) =
      max_concurrent self" by (simp add: sched_inv_def)
  with sem_bound [OF inv] held trace_disciplined [of self g l u] show ?thesis by simp
qed

theorem exchanges_within_capacity_witness:
  "0 \<le> max_concurrent single_slot_fetcher \<and>
   run_schedule schedule_pair (start single_slot_fetcher net_pair loads_sample urls_pair) =
     Some \<lparr>sem_value = 0,
      progress =
        [([Acquire, GetBegin ''http://a'' 0, GetEnd, Release, Sleep 1],
          [Acquire, GetBegin ''http://a'' 1, GetEnd, Release]),
         ([Acquire, GetBegin ''http://b'' 0], [GetEnd, Release])]\<rparr> \<and>
   in_backoff [Acquire, GetBegin ''http://a'' 0, GetEnd, Release, Sleep 1] \<and>
   held [Acquire, GetBegin ''http://a'' 0, GetEnd, Release, Sleep 1] = 0 \<and>
   in_exchange [Acquire, GetBegin ''http://b'' 0] \<and>
   held [Acquire, GetBegin ''http://b'' 0] = 1 \<and>
   int (active_exchanges
     \<lparr>sem_value = 0,
      progress =
        [([Acquire, GetBegin ''http://a'' 0, GetEnd, Release, Sleep 1],
          [Acquire, GetBegin ''http://a'' 1, GetEnd, Release]),
         ([Acquire, GetBegin ''http://b'' 0], [GetEnd, Release])]\<rparr>)
     \<le> max_concurrent single_slot_fetcher"
proof -
  have mc: "0 \<le> max_concurrent single_slot_fetcher" by (simp add: single_slot_fetcher_def)
  from exchanges_within_capacity [OF mc run_pair, of get_ok "''http://a''"] mc run_pair
  show ?thesis by (simp add: in_backoff_def in_exchange_def)
qed

end
